theory Spec2Isabelle
  imports Main
begin

section \<open>The board (src/src/board.py)\<close>

text \<open>
  A \<open>Board\<close> object holds two nested Python lists: \<open>grid\<close> (cell values, 0 for an empty
  cell) and \<open>given\<close> (the immutability flags).  Python integers are unbounded, so cell
  values are \<open>int\<close>.  Row and column indices are natural numbers; every statement below
  is about indices in \<open>0..8\<close> of a board with nine rows of nine cells, where no list access
  of the source can raise \<open>IndexError\<close>.
\<close>

record board =
  grid :: "int list list"
  given :: "bool list list"

definition SIZE :: nat where
  "SIZE = 9"

definition BOX_SIZE :: nat where
  "BOX_SIZE = 3"

text \<open>\<open>Board.__init__\<close>: the empty board.\<close>

definition new_board :: board where
  "new_board = \<lparr>grid = replicate SIZE (replicate SIZE 0),
                given = replicate SIZE (replicate SIZE False)\<rparr>"

text \<open>The shape every board built by \<open>Board.__init__\<close> has: 9 rows of 9 cells, twice.\<close>

definition wf_board :: "board \<Rightarrow> bool" where
  "wf_board b =
     (length (grid b) = SIZE \<and> list_all (\<lambda>row. length row = SIZE) (grid b) \<and>
      length (given b) = SIZE \<and> list_all (\<lambda>row. length row = SIZE) (given b))"

definition get :: "board \<Rightarrow> nat \<Rightarrow> nat \<Rightarrow> int" where
  "get b row col = grid b ! row ! col"

text \<open>The assignment \<open>board.grid[row][col] = value\<close>, used by \<open>set\<close>, the solver and the generator.\<close>

definition grid_write :: "board \<Rightarrow> nat \<Rightarrow> nat \<Rightarrow> int \<Rightarrow> board" where
  "grid_write b row col v = b\<lparr>grid := (grid b)[row := (grid b ! row)[col := v]]\<rparr>"

text \<open>\<open>Board.set\<close> returns its boolean together with the board after the call.\<close>

definition set_cell :: "board \<Rightarrow> nat \<Rightarrow> nat \<Rightarrow> int \<Rightarrow> bool \<times> board" where
  "set_cell b row col v =
     (if given b ! row ! col then (False, b) else (True, grid_write b row col v))"

definition is_given :: "board \<Rightarrow> nat \<Rightarrow> nat \<Rightarrow> bool" where
  "is_given b row col = given b ! row ! col"

definition mark_given :: "board \<Rightarrow> nat \<Rightarrow> nat \<Rightarrow> board" where
  "mark_given b row col = b\<lparr>given := (given b)[row := (given b ! row)[col := True]]\<rparr>"

text \<open>
  \<open>Board.is_valid_move\<close>: three loops, each returning \<open>False\<close> at the first other cell
  that holds \<open>num\<close>.
\<close>

definition is_valid_move :: "board \<Rightarrow> nat \<Rightarrow> nat \<Rightarrow> int \<Rightarrow> bool" where
  "is_valid_move b row col num =
     (list_all (\<lambda>c. if c \<noteq> col \<and> grid b ! row ! c = num then False else True) [0..<SIZE] \<and>
      list_all (\<lambda>r. if r \<noteq> row \<and> grid b ! r ! col = num then False else True) [0..<SIZE] \<and>
      (let box_row = (row div BOX_SIZE) * BOX_SIZE;
           box_col = (col div BOX_SIZE) * BOX_SIZE
       in list_all (\<lambda>r.
            list_all (\<lambda>c. if (r, c) \<noteq> (row, col) \<and> grid b ! r ! c = num then False else True)
              [box_col..<box_col + BOX_SIZE])
            [box_row..<box_row + BOX_SIZE]))"

text \<open>\<open>Board.copy\<close>: a new object with deep copies of both lists.\<close>

definition copy :: "board \<Rightarrow> board" where
  "copy b = \<lparr>grid = grid b, given = given b\<rparr>"

subsection \<open>Serialisation\<close>

text \<open>
  The values a saved record holds under its keys: an array of integer rows or an array
  of boolean rows.  Python's \<open>bool\<close> is a subtype of \<open>int\<close> (\<open>True == 1\<close>) and an
  integer is used as a flag by its truth value, which is how a value of the other
  shape reads once stored in the board.
\<close>

datatype pyval = IntRows "int list list" | BoolRows "bool list list"

datatype py_error = KeyError

definition as_ints :: "pyval \<Rightarrow> int list list" where
  "as_ints v = (case v of IntRows g \<Rightarrow> g
                | BoolRows f \<Rightarrow> map (map (\<lambda>x. if x then 1 else 0)) f)"

definition as_flags :: "pyval \<Rightarrow> bool list list" where
  "as_flags v = (case v of BoolRows f \<Rightarrow> f
                 | IntRows g \<Rightarrow> map (map (\<lambda>x. x \<noteq> 0)) g)"

definition to_dict :: "board \<Rightarrow> (string \<rightharpoonup> pyval)" where
  "to_dict b = [''grid'' \<mapsto> IntRows (grid b), ''given'' \<mapsto> BoolRows (given b)]"

text \<open>\<open>Board.from_dict\<close>: \<open>data['grid']\<close> and \<open>data['given']\<close> raise \<open>KeyError\<close> on a missing key.\<close>

definition from_dict :: "(string \<rightharpoonup> pyval) \<Rightarrow> py_error + board" where
  "from_dict data =
     (case data ''grid'' of
        None \<Rightarrow> Inl KeyError
      | Some g \<Rightarrow>
          (case data ''given'' of
             None \<Rightarrow> Inl KeyError
           | Some f \<Rightarrow> Inr \<lparr>grid = as_ints g, given = as_flags f\<rparr>))"

section \<open>The random source\<close>

text \<open>
  The generator and the randomised solver draw from Python's \<open>random\<close> module.  The
  source of randomness is a tape of natural numbers, read from the left; an exhausted
  tape reads as 0.  \<open>randbelow n\<close> is one draw reduced below \<open>n\<close>; \<open>randint\<close> and
  \<open>shuffle\<close> are CPython's algorithms on top of it (\<open>shuffle\<close> is the Fisher-Yates loop
  \<open>for i in reversed(range(1, len(x))): j = randbelow(i + 1); x[i], x[j] = x[j], x[i]\<close>).
  Every sequence of random choices of the program is the run on some tape.
\<close>

type_synonym rng = "nat list"

definition randbelow :: "nat \<Rightarrow> rng \<Rightarrow> nat \<times> rng" where
  "randbelow n t = (case t of [] \<Rightarrow> (0, []) | x # t' \<Rightarrow> (x mod n, t'))"

definition randint :: "nat \<Rightarrow> nat \<Rightarrow> rng \<Rightarrow> nat \<times> rng" where
  "randint a b t = (let (k, t') = randbelow (b - a + 1) t in (a + k, t'))"

fun shuffle_from :: "nat \<Rightarrow> 'a list \<Rightarrow> rng \<Rightarrow> 'a list \<times> rng" where
  "shuffle_from 0 xs t = (xs, t)"
| "shuffle_from (Suc i) xs t =
     (let (j, t') = randbelow (Suc i + 1) t
      in shuffle_from i (xs[Suc i := xs ! j, j := xs ! Suc i]) t')"

definition shuffle :: "'a list \<Rightarrow> rng \<Rightarrow> 'a list \<times> rng" where
  "shuffle xs t = shuffle_from (length xs - 1) xs t"

section \<open>The solver (src/src/solver.py)\<close>

text \<open>The board positions in the order of the nested \<open>for row ... for col ...\<close> loops.\<close>

definition positions :: "(nat \<times> nat) list" where
  "positions = List.product [0..<SIZE] [0..<SIZE]"

text \<open>\<open>Solver._find_empty_cell\<close>: the first position holding 0, or \<open>None\<close>.\<close>

definition find_empty_cell :: "board \<Rightarrow> (nat \<times> nat) option" where
  "find_empty_cell b = find (\<lambda>(row, col). grid b ! row ! col = 0) positions"

text \<open>
  The solver's functions recurse once per filled cell.  The first argument bounds the
  depth of the recursion: a call that needs a deeper stack than allowed yields \<open>None\<close>,
  which is Python's \<open>RecursionError\<close>.  The inner function is the \<open>for num in numbers\<close>
  loop of the source, run on the remaining candidates; a call returns its result
  together with the board as the call leaves it.
\<close>

fun solve_fuel :: "nat \<Rightarrow> board \<Rightarrow> (bool \<times> board) option"
  and solve_try :: "nat \<Rightarrow> nat \<Rightarrow> nat \<Rightarrow> int list \<Rightarrow> board \<Rightarrow> (bool \<times> board) option"
where
  "solve_fuel 0 b = None"
| "solve_fuel (Suc n) b =
     (case find_empty_cell b of
        None \<Rightarrow> Some (True, b)
      | Some (row, col) \<Rightarrow> solve_try n row col [1..9] b)"
| "solve_try n row col [] b = Some (False, b)"
| "solve_try n row col (num # numbers) b =
     (if is_valid_move b row col num then
        (case solve_fuel n (grid_write b row col num) of
           None \<Rightarrow> None
         | Some (True, b') \<Rightarrow> Some (True, b')
         | Some (False, b') \<Rightarrow> solve_try n row col numbers (grid_write b' row col 0))
      else solve_try n row col numbers b)"

fun solve_with_randomness_fuel :: "nat \<Rightarrow> board \<Rightarrow> rng \<Rightarrow> (bool \<times> board \<times> rng) option"
  and solve_with_randomness_try ::
    "nat \<Rightarrow> nat \<Rightarrow> nat \<Rightarrow> int list \<Rightarrow> board \<Rightarrow> rng \<Rightarrow> (bool \<times> board \<times> rng) option"
where
  "solve_with_randomness_fuel 0 b t = None"
| "solve_with_randomness_fuel (Suc n) b t =
     (case find_empty_cell b of
        None \<Rightarrow> Some (True, b, t)
      | Some (row, col) \<Rightarrow>
          (let (numbers, t') = shuffle [1..9] t
           in solve_with_randomness_try n row col numbers b t'))"
| "solve_with_randomness_try n row col [] b t = Some (False, b, t)"
| "solve_with_randomness_try n row col (num # numbers) b t =
     (if is_valid_move b row col num then
        (case solve_with_randomness_fuel n (grid_write b row col num) t of
           None \<Rightarrow> None
         | Some (True, b', t') \<Rightarrow> Some (True, b', t')
         | Some (False, b', t') \<Rightarrow>
             solve_with_randomness_try n row col numbers (grid_write b' row col 0) t')
      else solve_with_randomness_try n row col numbers b t)"

text \<open>
  \<open>Solver.count_solutions\<close>: the closure \<open>backtrack\<close> shares the counter \<open>count[0]\<close> and
  the board with its caller; both are threaded through as a pair.
\<close>

fun backtrack :: "nat \<Rightarrow> int \<Rightarrow> int \<times> board \<Rightarrow> (int \<times> board) option"
  and backtrack_try ::
    "nat \<Rightarrow> int \<Rightarrow> nat \<Rightarrow> nat \<Rightarrow> int list \<Rightarrow> int \<times> board \<Rightarrow> (int \<times> board) option"
where
  "backtrack 0 limit (count, b) = None"
| "backtrack (Suc n) limit (count, b) =
     (if count \<ge> limit then Some (count, b)
      else (case find_empty_cell b of
              None \<Rightarrow> Some (count + 1, b)
            | Some (row, col) \<Rightarrow> backtrack_try n limit row col [1..9] (count, b)))"
| "backtrack_try n limit row col [] (count, b) = Some (count, b)"
| "backtrack_try n limit row col (num # numbers) (count, b) =
     (if is_valid_move b row col num then
        (case backtrack n limit (count, grid_write b row col num) of
           None \<Rightarrow> None
         | Some (count', b') \<Rightarrow>
             backtrack_try n limit row col numbers (count', grid_write b' row col 0))
      else backtrack_try n limit row col numbers (count, b))"

text \<open>CPython's default recursion limit (\<open>sys.getrecursionlimit()\<close>).\<close>

definition recursion_limit :: nat where
  "recursion_limit = 1000"

definition solve :: "board \<Rightarrow> (bool \<times> board) option" where
  "solve b = solve_fuel recursion_limit b"

definition solve_with_randomness :: "board \<Rightarrow> rng \<Rightarrow> (bool \<times> board \<times> rng) option" where
  "solve_with_randomness b t = solve_with_randomness_fuel recursion_limit b t"

definition count_solutions :: "board \<Rightarrow> int \<Rightarrow> (int \<times> board) option" where
  "count_solutions b limit = backtrack recursion_limit limit (0, b)"

text \<open>
  Objects are shared by reference.  Where a claim is about which object a call
  mutates, the boards live in a store, addressed by their index; \<open>copy\<close> allocates a
  new object, and a call on a reference writes the board it leaves back to the store.
\<close>

type_synonym heap = "board list"

definition copy_obj :: "heap \<Rightarrow> nat \<Rightarrow> nat \<times> heap" where
  "copy_obj h a = (length h, h @ [copy (h ! a)])"

definition solve_obj :: "heap \<Rightarrow> nat \<Rightarrow> (bool \<times> heap) option" where
  "solve_obj h a =
     (case solve (h ! a) of None \<Rightarrow> None | Some (ok, b') \<Rightarrow> Some (ok, h[a := b']))"

definition count_solutions_obj :: "heap \<Rightarrow> nat \<Rightarrow> int \<Rightarrow> (int \<times> heap) option" where
  "count_solutions_obj h a limit =
     (case count_solutions (h ! a) limit of
        None \<Rightarrow> None
      | Some (k, b') \<Rightarrow> Some (k, h[a := b']))"

text \<open>
  \<open>Solver.get_hint\<close>: solve a copy, then scan for the first cell that is empty in the
  caller's board and filled in the copy.
\<close>

definition get_hint :: "heap \<Rightarrow> nat \<Rightarrow> ((nat \<times> nat \<times> int) option \<times> heap) option" where
  "get_hint h board =
     (let (temp_board, h1) = copy_obj h board
      in case solve_obj h1 temp_board of
           None \<Rightarrow> None
         | Some (ok, h2) \<Rightarrow>
             if ok then
               Some (map_option (\<lambda>(row, col). (row, col, grid (h2 ! temp_board) ! row ! col))
                       (find (\<lambda>(row, col). grid (h2 ! board) ! row ! col = 0 \<and>
                                            grid (h2 ! temp_board) ! row ! col \<noteq> 0) positions),
                     h2)
             else Some (None, h2))"

section \<open>The generator (src/src/generator.py)\<close>

definition EASY :: string where "EASY = ''easy''"
definition MEDIUM :: string where "MEDIUM = ''medium''"
definition HARD :: string where "HARD = ''hard''"
definition EXPERT :: string where "EXPERT = ''expert''"

definition REMOVE_COUNT :: "string \<rightharpoonup> nat \<times> nat" where
  "REMOVE_COUNT = [EASY \<mapsto> (40, 45), MEDIUM \<mapsto> (46, 49), HARD \<mapsto> (50, 53), EXPERT \<mapsto> (54, 58)]"

text \<open>\<open>Difficulty.REMOVE_COUNT.get(difficulty, Difficulty.REMOVE_COUNT[Difficulty.EASY])\<close>\<close>

definition remove_range :: "string \<Rightarrow> nat \<times> nat" where
  "remove_range difficulty =
     (case REMOVE_COUNT difficulty of Some p \<Rightarrow> p | None \<Rightarrow> (40, 45))"

text \<open>\<open>Generator._fill_box\<close>: the nine cells of the box take \<open>numbers[0], ..., numbers[8]\<close>.\<close>

definition fill_box :: "board \<Rightarrow> nat \<Rightarrow> nat \<Rightarrow> rng \<Rightarrow> board \<times> rng" where
  "fill_box b row col t =
     (let (numbers, t') = shuffle [1..9] t
      in (fold (\<lambda>((r, c), idx) b. grid_write b r c (numbers ! idx))
            (zip (List.product [row..<row + BOX_SIZE] [col..<col + BOX_SIZE]) [0..<9]) b, t'))"

definition fill_diagonal_boxes :: "board \<Rightarrow> rng \<Rightarrow> board \<times> rng" where
  "fill_diagonal_boxes b t =
     fold (\<lambda>box (b, t). fill_box b (box * BOX_SIZE) (box * BOX_SIZE) t) [0..<3] (b, t)"

text \<open>\<open>Generator._generate_complete_board\<close> drops the boolean of the randomised solver.\<close>

definition generate_complete_board :: "rng \<Rightarrow> (board \<times> rng) option" where
  "generate_complete_board t =
     (let (b, t1) = fill_diagonal_boxes new_board t
      in case solve_with_randomness b t1 of
           None \<Rightarrow> None
         | Some (ok, b', t2) \<Rightarrow> Some (b', t2))"

text \<open>
  The \<open>while\<close> loop of \<open>Generator._remove_cells\<close>.  \<open>positions.pop()\<close> takes the last
  element of the list.
\<close>

function remove_loop ::
  "board \<Rightarrow> nat \<Rightarrow> nat \<Rightarrow> (nat \<times> nat) list \<Rightarrow> nat \<Rightarrow> nat \<Rightarrow> board option" where
  "remove_loop b count max_attempts ps removed attempts =
     (if removed < count \<and> attempts < max_attempts then
        (if ps = [] then Some b
         else (let (row, col) = last ps;
                   backup = grid b ! row ! col;
                   b1 = grid_write b row col 0;
                   board_copy = copy b1
               in case count_solutions board_copy 2 of
                    None \<Rightarrow> None
                  | Some (solution_count, board_copy') \<Rightarrow>
                      if solution_count = 1
                      then remove_loop b1 count max_attempts (butlast ps) (removed + 1) (attempts + 1)
                      else remove_loop (grid_write b1 row col backup) count max_attempts
                             (butlast ps) removed (attempts + 1)))
      else Some b)"
  by pat_completeness auto
termination
  by (relation "measure (\<lambda>(b, count, max_attempts, ps, removed, attempts). length ps)") auto

definition remove_cells :: "board \<Rightarrow> nat \<Rightarrow> rng \<Rightarrow> (board \<times> rng) option" where
  "remove_cells b count t =
     (let (ps, t') = shuffle positions t
      in case remove_loop b count (count * 3) ps 0 0 of
           None \<Rightarrow> None
         | Some b' \<Rightarrow> Some (b', t'))"

text \<open>The closing loops of both generators: every nonzero cell is marked given.\<close>

definition mark_nonzero_given :: "board \<Rightarrow> board" where
  "mark_nonzero_given b =
     fold (\<lambda>(row, col) b. if grid b ! row ! col \<noteq> 0 then mark_given b row col else b) positions b"

definition generate :: "string \<Rightarrow> rng \<Rightarrow> (board \<times> rng) option" where
  "generate difficulty t =
     (case generate_complete_board t of
        None \<Rightarrow> None
      | Some (board, t1) \<Rightarrow>
          (let (min_remove, max_remove) = remove_range difficulty;
               (num_to_remove, t2) = randint min_remove max_remove t1
           in case remove_cells board num_to_remove t2 of
                None \<Rightarrow> None
              | Some (board', t3) \<Rightarrow> Some (mark_nonzero_given board', t3)))"

definition generate_simple :: "string \<Rightarrow> rng \<Rightarrow> (board \<times> rng) option" where
  "generate_simple difficulty t =
     (case generate_complete_board t of
        None \<Rightarrow> None
      | Some (board, t1) \<Rightarrow>
          (let (min_remove, max_remove) = remove_range difficulty;
               (num_to_remove, t2) = randint min_remove max_remove t1;
               (ps, t3) = shuffle positions t2;
               board' = fold (\<lambda>i b. case ps ! i of (row, col) \<Rightarrow> grid_write b row col 0)
                          [0..<num_to_remove] board
           in Some (mark_nonzero_given board', t3)))"

section \<open>Notions used in the specifications\<close>

text \<open>
  Two positions share a unit if they are in the same row, the same column or the same
  3x3 box.  \<open>empties\<close> counts the empty cells of a board.  A \<open>completion\<close> of a board
  keeps its nonzero cells and its flags and fills every empty cell with a value 1..9 that
  no other cell of its units holds; \<open>sols\<close> is the set of completions.  \<open>cnt\<close> is the
  counter of \<open>count_solutions\<close> after \<open>k\<close> more solutions were met.
\<close>

definition same_unit :: "nat \<Rightarrow> nat \<Rightarrow> nat \<Rightarrow> nat \<Rightarrow> bool" where
  "same_unit r c r' c' =
     (r' = r \<or> c' = c \<or> (r' div BOX_SIZE = r div BOX_SIZE \<and> c' div BOX_SIZE = c div BOX_SIZE))"

definition empties :: "board \<Rightarrow> nat" where
  "empties b = length (filter (\<lambda>(r, c). get b r c = 0) positions)"

definition completion :: "board \<Rightarrow> board \<Rightarrow> bool" where
  "completion b s =
     (wf_board s \<and> given s = given b \<and>
      list_all (\<lambda>(r, c). if get b r c = 0
                          then 1 \<le> get s r c \<and> get s r c \<le> 9 \<and> is_valid_move s r c (get s r c)
                          else get s r c = get b r c) positions)"

definition solve_post :: "board \<Rightarrow> bool \<Rightarrow> board \<Rightarrow> bool" where
  "solve_post b ok b' = (if ok then completion b b' else b' = b \<and> (\<forall>s. \<not> completion b s))"

definition sols :: "board \<Rightarrow> board set" where
  "sols b = {s. completion b s}"

definition cnt :: "int \<Rightarrow> int \<Rightarrow> nat \<Rightarrow> int" where
  "cnt limit count k = (if limit \<le> count then count else min limit (count + int k))"

text \<open>
  A board is \<open>valid_full\<close> if every cell holds a value 1..9 that no other cell of its
  units holds.  \<open>sub_board b s\<close>: \<open>b\<close> has the shape and flags of \<open>s\<close> and every nonzero
  cell of \<open>b\<close> holds the value of \<open>s\<close>.  \<open>given_count\<close> counts the nonzero cells, as
  the tests of the generator do.
\<close>

definition valid_full :: "board \<Rightarrow> bool" where
  "valid_full s =
     (wf_board s \<and>
      list_all (\<lambda>(r, c). 1 \<le> get s r c \<and> get s r c \<le> 9 \<and> is_valid_move s r c (get s r c))
        positions)"

definition sub_board :: "board \<Rightarrow> board \<Rightarrow> bool" where
  "sub_board b s =
     (wf_board b \<and> given b = given s \<and>
      list_all (\<lambda>(r, c). get b r c = 0 \<or> get b r c = get s r c) positions)"

definition given_count :: "board \<Rightarrow> nat" where
  "given_count b = length (filter (\<lambda>(r, c). grid b ! r ! c \<noteq> 0) positions)"

text \<open>
  \<open>unique_sol b\<close>: \<open>count_solutions\<close> with limit 2 counts exactly one completion of \<open>b\<close>.
  \<open>clear_cells\<close> empties a list of cells; \<open>write_cells\<close> overwrites cells with given
  values.  \<open>alt_ok s p (q, changes)\<close> checks that overwriting \<open>changes\<close> in the full board
  \<open>s\<close> gives another full board that differs from \<open>s\<close> at \<open>q\<close>, agrees with the puzzle
  \<open>p\<close> outside \<open>q\<close>, and is without conflict at every changed cell.
\<close>

definition unique_sol :: "board \<Rightarrow> bool" where
  "unique_sol b = (cnt 2 0 (card (sols b)) = 1)"

definition clear_cells :: "board \<Rightarrow> (nat \<times> nat) list \<Rightarrow> board" where
  "clear_cells b cs = fold (\<lambda>(r, c) b. grid_write b r c 0) cs b"

definition write_cells :: "board \<Rightarrow> ((nat \<times> nat) \<times> int) list \<Rightarrow> board" where
  "write_cells b ws = fold (\<lambda>((r, c), v) b. grid_write b r c v) ws b"

definition alt_ok :: "board \<Rightarrow> board \<Rightarrow> (nat \<times> nat) \<times> ((nat \<times> nat) \<times> int) list \<Rightarrow> bool" where
  "alt_ok s p qc =
     (case qc of (q, changes) \<Rightarrow>
        (let a = write_cells s changes
         in fst q < SIZE \<and> snd q < SIZE \<and>
            get a (fst q) (snd q) \<noteq> get s (fst q) (snd q) \<and>
            list_all (\<lambda>(r, c). (r, c) = q \<or> get p r c = 0 \<or> get p r c = get a r c) positions \<and>
            list_all (\<lambda>((r, c), v). r < SIZE \<and> c < SIZE \<and> 1 \<le> v \<and> v \<le> 9 \<and>
                                      is_valid_move a r c v \<and> get a r c = v) changes))"

text \<open>\<open>regive f\<close> replaces the flags of the board in a state of the counting search.\<close>

definition regive :: "bool list list \<Rightarrow> int \<times> board \<Rightarrow> int \<times> board" where
  "regive f p = (fst p, (snd p)\<lparr>given := f\<rparr>)"


text \<open>
  \<open>cells b\<close> reads the board in the order of \<open>positions\<close> (row by row, left to right),
  and \<open>lex_le\<close> compares two such readings lexicographically: at the first position
  where they differ, the first one holds the smaller value.
\<close>

definition cells :: "board \<Rightarrow> int list" where
  "cells b = map (\<lambda>(r, c). get b r c) positions"

fun lex_le :: "int list \<Rightarrow> int list \<Rightarrow> bool" where
  "lex_le [] ys = True"
| "lex_le (x # xs) [] = False"
| "lex_le (x # xs) (y # ys) = (x < y \<or> (x = y \<and> lex_le xs ys))"
section \<open>Boards and records used as concrete inputs\<close>

text \<open>The board of \<open>test_solve_unsolvable_board\<close>: first row all 1, the rest empty.\<close>

definition nine_ones :: board where
  "nine_ones = fold (\<lambda>col b. grid_write b 0 col 1) [0..<SIZE] new_board"

text \<open>An otherwise empty board with the value 1 at (0,0) and at (0,1).\<close>

definition two_ones :: board where
  "two_ones = grid_write (grid_write new_board 0 0 1) 0 1 1"

text \<open>An empty board whose cell (0,0) is marked given.\<close>

definition given_corner :: board where
  "given_corner = mark_given new_board 0 0"

text \<open>A saved record with a single row holding the single value 10.\<close>

definition bad_record :: "string \<rightharpoonup> pyval" where
  "bad_record = [''grid'' \<mapsto> IntRows [[10]], ''given'' \<mapsto> BoolRows [[False]]]"

text \<open>A store holding the single board \<open>two_ones\<close>.\<close>

definition one_board_heap :: heap where
  "one_board_heap = [two_ones]"

text \<open>
  A full valid grid without the four cells (0,4), (0,8), (2,4), (2,8), which held
  1, 6, 6, 1.  The board has two completions: \<open>rect_low\<close> puts 1, 6, 6, 1 back and
  \<open>rect_high\<close> writes 6, 1, 1, 6.  \<open>rect_flagged\<close> is the same board with a flag set.
\<close>

definition rect_board :: board where
  "rect_board =
     \<lparr>grid =
        [[3, 7, 9, 2, 0, 5, 4, 8, 0],
         [5, 6, 1, 8, 7, 4, 2, 3, 9],
         [8, 2, 4, 3, 0, 9, 5, 7, 0],
         [1, 9, 3, 7, 2, 8, 6, 5, 4],
         [6, 5, 8, 4, 9, 1, 7, 2, 3],
         [7, 4, 2, 6, 5, 3, 1, 9, 8],
         [2, 8, 5, 1, 3, 6, 9, 4, 7],
         [9, 3, 6, 5, 4, 7, 8, 1, 2],
         [4, 1, 7, 9, 8, 2, 3, 6, 5]],
      given = replicate 9 (replicate 9 False)\<rparr>"

definition rect_low :: board where
  "rect_low = write_cells rect_board [((0, 4), 1), ((0, 8), 6), ((2, 4), 6), ((2, 8), 1)]"

definition rect_high :: board where
  "rect_high = write_cells rect_board [((0, 4), 6), ((0, 8), 1), ((2, 4), 1), ((2, 8), 6)]"

definition rect_flagged :: board where
  "rect_flagged = mark_given rect_board 0 0"

section \<open>A run of the generator that keeps 28 givens\<close>

text \<open>
  A tape of random draws for \<open>generate\<close>, the full grid the completion phase builds from it
  (\<open>cx_full\<close>), the puzzle the removal phase is left with (\<open>cx_puzzle\<close>), the board
  returned (\<open>cx_board\<close>, the puzzle with its 28 nonzero cells marked given), the shuffled
  list of positions, and for each of the 28 clues the cells of a second solution of the
  puzzle without that clue.
\<close>

definition cx_tape :: rng where
  "cx_tape =
     [3, 1, 1, 0, 0, 0, 0, 1, 2, 4, 5, 0, 2, 3, 2, 1, 4, 5, 2, 1, 0, 1, 2, 1, 8, 7, 6, 5, 4,
      3, 2, 0, 8, 7, 6, 5, 4, 3, 2, 1, 8, 7, 6, 5, 0, 3, 2, 1, 8, 7, 6, 5, 4, 0, 2, 1, 8,
      0, 6, 5, 4, 3, 2, 1, 8, 7, 6, 0, 4, 3, 2, 1, 8, 0, 6, 5, 4, 3, 2, 1, 8, 7, 0, 5, 4,
      3, 2, 1, 8, 7, 6, 5, 4, 0, 2, 1, 8, 7, 6, 5, 4, 3, 2, 0, 8, 7, 6, 5, 4, 3, 0, 1, 0,
      7, 6, 5, 4, 3, 2, 1, 8, 7, 6, 5, 4, 3, 0, 1, 8, 7, 6, 0, 4, 3, 2, 1, 0, 7, 6, 5, 4,
      3, 2, 1, 8, 7, 6, 5, 0, 3, 2, 1, 8, 7, 0, 5, 4, 3, 2, 1, 8, 7, 6, 5, 4, 3, 2, 1, 8,
      7, 6, 5, 4, 3, 2, 1, 0, 7, 6, 5, 4, 3, 2, 1, 8, 7, 6, 5, 4, 3, 0, 1, 8, 7, 6, 0, 4,
      3, 2, 1, 8, 7, 6, 5, 0, 3, 2, 1, 8, 7, 6, 5, 4, 0, 2, 1, 8, 7, 6, 0, 4, 3, 2, 1, 8,
      7, 6, 5, 0, 3, 2, 1, 8, 0, 6, 5, 4, 3, 2, 1, 8, 7, 0, 5, 4, 3, 2, 1, 8, 7, 6, 5, 4,
      3, 2, 0, 8, 7, 6, 5, 4, 3, 0, 1, 8, 7, 0, 5, 4, 3, 2, 1, 8, 7, 6, 5, 4, 0, 2, 1, 8,
      7, 6, 5, 4, 3, 2, 0, 8, 7, 6, 5, 4, 3, 2, 1, 0, 7, 6, 5, 4, 3, 2, 1, 8, 0, 6, 5, 4,
      3, 2, 1, 8, 7, 6, 5, 4, 3, 2, 0, 8, 0, 6, 5, 4, 3, 2, 1, 8, 7, 6, 5, 0, 3, 2, 1, 8,
      7, 6, 5, 4, 3, 2, 1, 8, 7, 6, 5, 4, 3, 0, 1, 8, 7, 6, 0, 4, 3, 2, 1, 0, 7, 6, 5, 4,
      3, 2, 1, 8, 7, 6, 5, 4, 3, 0, 1, 8, 7, 6, 0, 4, 3, 2, 1, 8, 7, 6, 5, 0, 3, 2, 1, 8,
      7, 6, 5, 4, 0, 2, 1, 8, 7, 0, 5, 4, 3, 2, 1, 8, 7, 6, 5, 4, 0, 2, 1, 8, 7, 6, 5, 4,
      3, 2, 1, 8, 7, 0, 5, 4, 3, 2, 1, 0, 7, 6, 5, 4, 3, 2, 1, 8, 0, 6, 5, 4, 3, 2, 1, 8,
      7, 6, 5, 4, 3, 2, 0, 0, 80, 79, 77, 75, 73, 72, 71, 70, 69, 67, 66, 65, 64, 63, 62,
      61, 58, 57, 55, 53, 52, 51, 48, 47, 46, 44, 43, 42, 41, 40, 38, 37, 36, 34, 33, 32,
      31, 27, 26, 23, 22, 19, 18, 16, 14, 13, 12, 10, 7, 5, 2, 1, 0, 26, 5, 12, 14, 23, 22,
      10, 5, 18, 16, 7, 16, 13, 2, 1, 0, 0, 2, 2, 5, 7, 1, 0, 2, 0, 1, 1]"

definition cx_full :: board where
  "cx_full =
     \<lparr>grid =
    [[3, 7, 9, 2, 1, 5, 4, 8, 6],
      [5, 6, 1, 8, 7, 4, 2, 3, 9],
      [8, 2, 4, 3, 6, 9, 5, 7, 1],
      [1, 9, 3, 7, 2, 8, 6, 5, 4],
      [6, 5, 8, 4, 9, 1, 7, 2, 3],
      [7, 4, 2, 6, 5, 3, 1, 9, 8],
      [2, 8, 5, 1, 3, 6, 9, 4, 7],
      [9, 3, 6, 5, 4, 7, 8, 1, 2],
      [4, 1, 7, 9, 8, 2, 3, 6, 5]],
      given = replicate 9 (replicate 9 False)\<rparr>"

definition cx_puzzle :: board where
  "cx_puzzle =
     \<lparr>grid =
    [[0, 0, 0, 2, 1, 0, 4, 0, 6],
      [5, 0, 1, 0, 0, 0, 2, 0, 9],
      [0, 0, 4, 3, 0, 0, 5, 7, 0],
      [0, 9, 3, 7, 0, 0, 0, 0, 4],
      [0, 0, 0, 4, 0, 0, 0, 0, 0],
      [7, 0, 0, 0, 5, 3, 0, 0, 0],
      [2, 0, 5, 0, 0, 6, 9, 0, 0],
      [0, 0, 0, 0, 0, 7, 0, 0, 0],
      [0, 0, 7, 0, 8, 0, 3, 0, 0]],
      given = replicate 9 (replicate 9 False)\<rparr>"

definition cx_board :: board where
  "cx_board =
     \<lparr>grid =
    [[0, 0, 0, 2, 1, 0, 4, 0, 6],
      [5, 0, 1, 0, 0, 0, 2, 0, 9],
      [0, 0, 4, 3, 0, 0, 5, 7, 0],
      [0, 9, 3, 7, 0, 0, 0, 0, 4],
      [0, 0, 0, 4, 0, 0, 0, 0, 0],
      [7, 0, 0, 0, 5, 3, 0, 0, 0],
      [2, 0, 5, 0, 0, 6, 9, 0, 0],
      [0, 0, 0, 0, 0, 7, 0, 0, 0],
      [0, 0, 7, 0, 8, 0, 3, 0, 0]],
      given =
    [[False, False, False, True, True, False, True, False, True],
      [True, False, True, False, False, False, True, False, True],
      [False, False, True, True, False, False, True, True, False],
      [False, True, True, True, False, False, False, False, True],
      [False, False, False, True, False, False, False, False, False],
      [True, False, False, False, True, True, False, False, False],
      [True, False, True, False, False, True, True, False, False],
      [False, False, False, False, False, True, False, False, False],
      [False, False, True, False, True, False, True, False, False]]\<rparr>"

definition cx_clues :: "(nat \<times> nat) list" where
  "cx_clues =
     [(0, 3), (0, 4), (0, 6), (0, 8), (1, 0), (1, 2), (1, 6), (1, 8), (2, 2), (2, 3),
      (2, 6), (2, 7), (3, 1), (3, 2), (3, 3), (3, 8), (4, 3), (5, 0), (5, 4), (5, 5),
      (6, 0), (6, 2), (6, 5), (6, 6), (7, 5), (8, 2), (8, 4), (8, 6)]"

definition cx_removed :: "(nat \<times> nat) list" where
  "cx_removed =
     [(0, 0), (0, 1), (0, 2), (0, 5), (0, 7), (1, 1), (1, 3), (1, 4), (1, 5), (1, 7),
      (2, 0), (2, 1), (2, 4), (2, 5), (2, 8), (3, 0), (3, 4), (3, 5), (3, 6), (3, 7),
      (4, 0), (4, 1), (4, 2), (4, 4), (4, 5), (4, 6), (4, 7), (4, 8), (5, 1), (5, 2),
      (5, 3), (5, 6), (5, 7), (5, 8), (6, 1), (6, 3), (6, 4), (6, 7), (6, 8), (7, 0),
      (7, 1), (7, 2), (7, 3), (7, 4), (7, 6), (7, 7), (7, 8), (8, 0), (8, 1), (8, 3),
      (8, 5), (8, 7), (8, 8)]"

definition cx_alts :: "((nat \<times> nat) \<times> ((nat \<times> nat) \<times> int) list) list" where
  "cx_alts =
     [((0, 3), [((0, 3), 5), ((0, 5), 2), ((7, 3), 2), ((7, 8), 5), ((8, 5), 5), ((8, 8), 2)]),
      ((0, 4), [((0, 2), 8), ((0, 4), 9), ((0, 7), 1), ((2, 0), 9), ((2, 5), 1), ((2, 8), 8),
         ((4, 0), 8), ((4, 2), 6), ((4, 4), 1), ((4, 5), 9), ((5, 6), 8), ((5, 8), 1),
         ((7, 0), 6), ((7, 2), 9), ((7, 6), 1), ((7, 7), 8)]),
      ((0, 6), [((0, 6), 8), ((0, 7), 4), ((6, 1), 3), ((6, 4), 4), ((6, 7), 8), ((7, 1), 8),
         ((7, 4), 3), ((7, 6), 4)]),
      ((0, 8), [((0, 0), 9), ((0, 2), 6), ((0, 8), 3), ((1, 1), 3), ((1, 7), 6), ((4, 7), 3),
         ((4, 8), 2), ((7, 0), 3), ((7, 1), 1), ((7, 2), 9), ((7, 7), 2), ((7, 8), 6),
         ((8, 1), 6), ((8, 7), 1)]),
      ((1, 0), [((1, 0), 6), ((1, 1), 5), ((4, 0), 5), ((4, 1), 6)]),
      ((1, 2), [((1, 1), 1), ((1, 2), 6), ((7, 2), 1), ((7, 7), 6), ((8, 1), 6), ((8, 7), 1)]),
      ((1, 6), [((0, 0), 9), ((0, 2), 8), ((0, 7), 3), ((1, 1), 3), ((1, 3), 6), ((1, 6), 8),
         ((1, 7), 2), ((2, 0), 6), ((2, 4), 9), ((2, 5), 8), ((3, 0), 8), ((3, 5), 1),
         ((4, 0), 1), ((4, 2), 2), ((4, 4), 6), ((4, 5), 9), ((4, 7), 8), ((5, 2), 6),
         ((5, 3), 8), ((5, 8), 2), ((7, 0), 3), ((7, 1), 6), ((7, 2), 9), ((7, 6), 2),
         ((7, 8), 8)]),
      ((1, 8), [((1, 7), 9), ((1, 8), 3), ((4, 2), 2), ((4, 7), 3), ((4, 8), 8), ((5, 2), 8),
         ((5, 7), 2), ((5, 8), 9)]),
      ((2, 2), [((2, 1), 4), ((2, 2), 2), ((5, 1), 2), ((5, 2), 4)]),
      ((2, 3), [((0, 0), 8), ((0, 7), 3), ((1, 3), 3), ((1, 7), 8), ((2, 0), 3), ((2, 3), 8)]),
      ((2, 6), [((0, 2), 8), ((0, 5), 9), ((0, 7), 5), ((2, 0), 9), ((2, 5), 5), ((2, 6), 8),
         ((3, 6), 5), ((3, 7), 6), ((4, 0), 8), ((4, 2), 6), ((6, 1), 3), ((6, 4), 4),
         ((6, 7), 8), ((7, 0), 4), ((7, 1), 8), ((7, 2), 9), ((7, 4), 3), ((7, 6), 6),
         ((8, 0), 6), ((8, 7), 4)]),
      ((2, 7), [((2, 7), 1), ((2, 8), 7), ((5, 6), 8), ((5, 8), 1), ((6, 1), 3), ((6, 4), 4),
         ((6, 7), 7), ((6, 8), 8), ((7, 1), 8), ((7, 4), 3), ((7, 6), 1), ((7, 7), 4)]),
      ((3, 1), [((3, 1), 5), ((3, 4), 9), ((3, 7), 2), ((4, 1), 9), ((4, 4), 2), ((4, 7), 5)]),
      ((3, 2), [((0, 0), 9), ((0, 2), 3), ((3, 0), 3), ((3, 2), 8), ((3, 5), 1), ((4, 0), 1),
         ((4, 2), 6), ((4, 5), 8), ((7, 0), 6), ((7, 2), 9)]),
      ((3, 3), [((1, 3), 7), ((1, 4), 4), ((1, 5), 8), ((3, 3), 8), ((3, 4), 7), ((3, 5), 2),
         ((7, 0), 4), ((7, 3), 9), ((7, 4), 2), ((7, 8), 5), ((8, 0), 9), ((8, 3), 5),
         ((8, 5), 4), ((8, 8), 2)]),
      ((3, 8), [((0, 0), 9), ((0, 2), 8), ((0, 7), 3), ((1, 1), 3), ((1, 3), 6), ((1, 7), 8),
         ((2, 0), 6), ((2, 4), 9), ((2, 5), 8), ((3, 0), 4), ((3, 4), 6), ((3, 5), 1),
         ((3, 6), 8), ((3, 8), 2), ((4, 0), 8), ((4, 2), 6), ((4, 4), 2), ((4, 5), 9),
         ((4, 7), 1), ((5, 1), 1), ((5, 3), 8), ((5, 6), 6), ((5, 8), 4), ((7, 0), 3),
         ((7, 1), 6), ((7, 2), 9), ((7, 6), 1), ((7, 7), 2), ((7, 8), 8), ((8, 0), 1),
         ((8, 1), 4)]),
      ((4, 3), [((4, 3), 9), ((4, 4), 4), ((7, 0), 4), ((7, 4), 9), ((8, 0), 9), ((8, 3), 4)]),
      ((5, 0), [((3, 0), 6), ((3, 6), 1), ((4, 0), 7), ((4, 6), 6), ((5, 0), 1), ((5, 6), 7)]),
      ((5, 4), [((3, 4), 5), ((3, 7), 2), ((4, 4), 2), ((4, 7), 9), ((5, 4), 9), ((5, 7), 5)]),
      ((5, 5), [((4, 5), 3), ((4, 7), 1), ((4, 8), 2), ((5, 5), 1), ((5, 6), 8), ((5, 8), 3),
         ((7, 6), 1), ((7, 7), 2), ((7, 8), 8)]),
      ((6, 0), [((2, 0), 2), ((2, 1), 8), ((6, 0), 8), ((6, 1), 2)]),
      ((6, 2), [((4, 1), 8), ((4, 2), 5), ((6, 1), 5), ((6, 2), 8)]),
      ((6, 5), [((3, 0), 6), ((3, 6), 1), ((4, 0), 1), ((4, 5), 6), ((5, 3), 1), ((5, 6), 6),
         ((6, 3), 6), ((6, 5), 1)]),
      ((6, 6), [((5, 6), 9), ((5, 7), 1), ((6, 1), 3), ((6, 4), 4), ((6, 6), 8), ((6, 7), 9),
         ((7, 1), 8), ((7, 4), 3), ((7, 6), 1), ((7, 7), 4)]),
      ((7, 5), [((1, 4), 4), ((1, 5), 7), ((7, 4), 7), ((7, 5), 4)]),
      ((8, 2), [((0, 0), 9), ((0, 1), 3), ((0, 2), 7), ((7, 0), 3), ((7, 1), 1), ((7, 2), 9),
         ((7, 7), 6), ((8, 1), 7), ((8, 2), 6), ((8, 7), 1)]),
      ((8, 4), [((3, 4), 8), ((3, 5), 2), ((8, 4), 2), ((8, 5), 8)]),
      ((8, 6), [((3, 0), 6), ((3, 5), 1), ((3, 6), 8), ((4, 0), 1), ((4, 2), 2), ((4, 5), 8),
         ((4, 7), 6), ((5, 2), 8), ((5, 8), 2), ((7, 1), 1), ((7, 6), 3), ((7, 7), 2),
         ((7, 8), 8), ((8, 1), 3), ((8, 6), 6), ((8, 7), 1)])]"

section \<open>Properties of the board and of the solver\<close>

lemma wf_new_board: "wf_board new_board"
  by (simp add: wf_board_def new_board_def SIZE_def list_all_iff)

lemma get_grid_write:
  "wf_board b \<Longrightarrow> r < SIZE \<Longrightarrow> c < SIZE \<Longrightarrow> r' < SIZE \<Longrightarrow> c' < SIZE \<Longrightarrow>
   get (grid_write b r c v) r' c' = (if r' = r \<and> c' = c then v else get b r' c')"
  by (auto simp: get_def grid_write_def wf_board_def list_all_length nth_list_update)

lemma wf_grid_write: "wf_board b \<Longrightarrow> wf_board (grid_write b r c v)"
  by (cases "r < SIZE") (auto simp: grid_write_def wf_board_def list_all_length nth_list_update)

lemma box_range: "(r div 3 * 3 \<le> r' \<and> r' < r div 3 * 3 + 3) = (r' div 3 = r div (3::nat))"
  by auto

lemma box_lt: "r < 9 \<Longrightarrow> r' div 3 = r div (3::nat) \<Longrightarrow> r' < 9"
  by presburger

lemma if_not_P_eq: "(if P then False else True) = (\<not> P)"
  by simp

lemma row_part:
  "list_all (\<lambda>c. if c \<noteq> col \<and> g ! row ! c = num then False else True) [0..<SIZE] =
   (\<forall>c<SIZE. c \<noteq> col \<longrightarrow> g ! row ! c \<noteq> num)"
  by (auto simp: list_all_iff)

lemma col_part:
  "list_all (\<lambda>r. if r \<noteq> row \<and> g ! r ! col = num then False else True) [0..<SIZE] =
   (\<forall>r<SIZE. r \<noteq> row \<longrightarrow> g ! r ! col \<noteq> num)"
  by (auto simp: list_all_iff)

lemma box_part:
  "list_all (\<lambda>r. list_all (\<lambda>c. if (r, c) \<noteq> (row, col) \<and> g ! r ! c = num then False else True)
        [col div 3 * 3..<col div 3 * 3 + 3]) [row div 3 * 3..<row div 3 * 3 + 3] =
   (\<forall>r c. r div 3 = row div 3 \<and> c div 3 = col div 3 \<and> (r, c) \<noteq> (row, col) \<longrightarrow> g ! r ! c \<noteq> num)"
proof -
  have "list_all (\<lambda>r. list_all (\<lambda>c. if (r, c) \<noteq> (row, col) \<and> g ! r ! c = num then False else True)
        [col div 3 * 3..<col div 3 * 3 + 3]) [row div 3 * 3..<row div 3 * 3 + 3] =
     (\<forall>r. (row div 3 * 3 \<le> r \<and> r < row div 3 * 3 + 3) \<longrightarrow>
        (\<forall>c. (col div 3 * 3 \<le> c \<and> c < col div 3 * 3 + 3) \<longrightarrow>
           \<not> ((r, c) \<noteq> (row, col) \<and> g ! r ! c = num)))"
    unfolding list_all_iff set_upt Ball_def atLeastLessThan_iff if_not_P_eq by blast
  also have "\<dots> = (\<forall>r c. r div 3 = row div 3 \<and> c div 3 = col div 3 \<and> (r, c) \<noteq> (row, col) \<longrightarrow> g ! r ! c \<noteq> num)"
    unfolding box_range by blast
  finally show ?thesis .
qed

lemma is_valid_move_iff:
  assumes "r < SIZE" "c < SIZE"
  shows "is_valid_move b r c v =
     (\<forall>r' c'. r' < SIZE \<and> c' < SIZE \<and> (r', c') \<noteq> (r, c) \<and> same_unit r c r' c' \<longrightarrow> grid b ! r' ! c' \<noteq> v)"
    (is "?L = ?R")
proof
  assume L: ?L
  have row: "\<forall>c'<SIZE. c' \<noteq> c \<longrightarrow> grid b ! r ! c' \<noteq> v"
    using L unfolding is_valid_move_def row_part by simp
  have col: "\<forall>r'<SIZE. r' \<noteq> r \<longrightarrow> grid b ! r' ! c \<noteq> v"
    using L unfolding is_valid_move_def col_part by simp
  have box: "\<forall>r' c'. r' div 3 = r div 3 \<and> c' div 3 = c div 3 \<and> (r', c') \<noteq> (r, c) \<longrightarrow> grid b ! r' ! c' \<noteq> v"
    using L unfolding is_valid_move_def Let_def BOX_SIZE_def box_part by simp
  show ?R
  proof (intro allI impI)
    fix r' c'
    assume h: "r' < SIZE \<and> c' < SIZE \<and> (r', c') \<noteq> (r, c) \<and> same_unit r c r' c'"
    then consider "r' = r" "c' \<noteq> c" | "c' = c" "r' \<noteq> r"
      | "r' div 3 = r div 3" "c' div 3 = c div 3"
      unfolding same_unit_def BOX_SIZE_def by auto
    then show "grid b ! r' ! c' \<noteq> v"
    proof cases
      case 1 then show ?thesis using row h by simp
    next
      case 2 then show ?thesis using col h by simp
    next
      case 3 then show ?thesis using box h by simp
    qed
  qed
next
  assume R: ?R
  have row: "\<forall>c'<SIZE. c' \<noteq> c \<longrightarrow> grid b ! r ! c' \<noteq> v"
    using R assms by (simp add: same_unit_def)
  have col: "\<forall>r'<SIZE. r' \<noteq> r \<longrightarrow> grid b ! r' ! c \<noteq> v"
    using R assms by (simp add: same_unit_def)
  have box: "\<forall>r' c'. r' div 3 = r div 3 \<and> c' div 3 = c div 3 \<and> (r', c') \<noteq> (r, c) \<longrightarrow> grid b ! r' ! c' \<noteq> v"
  proof (intro allI impI)
    fix r' c'
    assume h: "r' div 3 = r div 3 \<and> c' div 3 = c div 3 \<and> (r', c') \<noteq> (r, c)"
    then have "r' < SIZE" "c' < SIZE"
      using assms box_lt unfolding SIZE_def by blast+
    then show "grid b ! r' ! c' \<noteq> v"
      using R h by (simp add: same_unit_def BOX_SIZE_def)
  qed
  show ?L
    unfolding is_valid_move_def Let_def BOX_SIZE_def row_part col_part box_part
    using row col box by blast
qed

lemma in_positions: "((r, c) \<in> set positions) = (r < SIZE \<and> c < SIZE)"
  by (auto simp: positions_def)

lemma distinct_positions: "distinct positions"
  by (simp add: positions_def distinct_product)

lemma completion_iff:
  "completion b s =
     (wf_board s \<and> given s = given b \<and>
      (\<forall>r c. r < SIZE \<and> c < SIZE \<longrightarrow>
         (if get b r c = 0
          then 1 \<le> get s r c \<and> get s r c \<le> 9 \<and> is_valid_move s r c (get s r c)
          else get s r c = get b r c)))"
  unfolding completion_def list_all_iff by (auto simp: in_positions)

lemma find_empty_None:
  "(find_empty_cell b = None) = (\<forall>r c. r < SIZE \<and> c < SIZE \<longrightarrow> get b r c \<noteq> 0)"
  unfolding find_empty_cell_def find_None_iff get_def by (auto simp: in_positions)

lemma find_empty_Some:
  "find_empty_cell b = Some (r, c) \<Longrightarrow> r < SIZE \<and> c < SIZE \<and> get b r c = 0"
  unfolding find_empty_cell_def find_Some_iff get_def
  by (metis (mono_tags, lifting) case_prod_conv in_positions nth_mem)

lemma board_eqI:
  assumes "wf_board a" "wf_board b" "given a = given b"
    and "\<And>r c. r < SIZE \<Longrightarrow> c < SIZE \<Longrightarrow> get a r c = get b r c"
  shows "a = b"
proof -
  have "grid a = grid b"
  proof (rule nth_equalityI)
    show "length (grid a) = length (grid b)" using assms by (simp add: wf_board_def)
  next
    fix i assume i: "i < length (grid a)"
    then have iS: "i < SIZE" using assms by (simp add: wf_board_def)
    show "grid a ! i = grid b ! i"
    proof (rule nth_equalityI)
      show "length (grid a ! i) = length (grid b ! i)"
        using assms iS by (simp add: wf_board_def list_all_length)
    next
      fix j assume "j < length (grid a ! i)"
      then have "j < SIZE" using assms iS by (simp add: wf_board_def list_all_length)
      then show "grid a ! i ! j = grid b ! i ! j" using assms(4)[OF iS] by (simp add: get_def)
    qed
  qed
  then show ?thesis using assms(3) by simp
qed

lemma given_grid_write [simp]: "given (grid_write b r c v) = given b"
  by (simp add: grid_write_def)

lemma grid_write_restore:
  assumes "wf_board b" "r < SIZE" "c < SIZE" "get b r c = 0"
  shows "grid_write (grid_write b r c v) r c 0 = b"
  by (rule board_eqI) (use assms in \<open>auto simp: wf_grid_write get_grid_write\<close>)

lemma filter_length_one_less:
  "distinct xs \<Longrightarrow> x \<in> set xs \<Longrightarrow> P x \<Longrightarrow> \<not> Q x \<Longrightarrow> (\<And>y. y \<in> set xs \<Longrightarrow> y \<noteq> x \<Longrightarrow> P y = Q y)
   \<Longrightarrow> length (filter P xs) = Suc (length (filter Q xs))"
proof (induction xs)
  case Nil
  then show ?case by simp
next
  case (Cons a xs)
  show ?case
  proof (cases "a = x")
    case True
    then have "x \<notin> set xs" using Cons.prems(1) by simp
    then have "filter P xs = filter Q xs"
      using Cons.prems(5) by (intro filter_cong) auto
    then show ?thesis using True Cons.prems by simp
  next
    case False
    then have "length (filter P xs) = Suc (length (filter Q xs))"
      using Cons by auto
    moreover have "P a = Q a" using Cons.prems(5) False by simp
    ultimately show ?thesis by simp
  qed
qed

lemma empties_grid_write:
  assumes "wf_board b" "r < SIZE" "c < SIZE" "get b r c = 0" "v \<noteq> 0"
  shows "empties b = Suc (empties (grid_write b r c v))"
  unfolding empties_def
  by (rule filter_length_one_less[where x = "(r, c)"])
     (use assms in \<open>auto simp: distinct_positions in_positions get_grid_write\<close>)

lemma same_unit_sym: "same_unit r c r' c' = same_unit r' c' r c"
  by (auto simp: same_unit_def)

lemma valid_iff:
  assumes "r < SIZE" "c < SIZE"
  shows "is_valid_move b r c v =
     (\<forall>r' c'. r' < SIZE \<and> c' < SIZE \<and> (r', c') \<noteq> (r, c) \<and> same_unit r c r' c' \<longrightarrow> get b r' c' \<noteq> v)"
  using is_valid_move_iff[OF assms] by (simp add: get_def)

lemma completion_self:
  "wf_board b \<Longrightarrow> find_empty_cell b = None \<Longrightarrow> completion b b"
  by (simp add: completion_iff find_empty_None)

lemma completion_full_eq:
  "completion b s \<Longrightarrow> wf_board b \<Longrightarrow> find_empty_cell b = None \<Longrightarrow> s = b"
  by (rule board_eqI) (auto simp: completion_iff find_empty_None)

lemma completion_step:
  assumes wf: "wf_board b" and r: "r < SIZE" and c: "c < SIZE" and e: "get b r c = 0"
  shows "completion b s =
     (1 \<le> get s r c \<and> get s r c \<le> 9 \<and> is_valid_move b r c (get s r c) \<and>
      completion (grid_write b r c (get s r c)) s)"
    (is "?L = ?R")
proof
  assume L: ?L
  let ?v = "get s r c"
  have v: "1 \<le> ?v" "?v \<le> 9" "is_valid_move s r c ?v"
    using L r c e unfolding completion_iff by (auto split: if_splits)
  have ext: "\<And>r' c'. r' < SIZE \<Longrightarrow> c' < SIZE \<Longrightarrow> get b r' c' \<noteq> 0 \<Longrightarrow> get s r' c' = get b r' c'"
    using L unfolding completion_iff by (auto split: if_splits)
  have "is_valid_move b r c ?v"
    unfolding valid_iff[OF r c]
  proof (intro allI impI)
    fix r' c'
    assume h: "r' < SIZE \<and> c' < SIZE \<and> (r', c') \<noteq> (r, c) \<and> same_unit r c r' c'"
    show "get b r' c' \<noteq> ?v"
    proof (cases "get b r' c' = 0")
      case True
      then show ?thesis using v by simp
    next
      case False
      then have "get s r' c' = get b r' c'" using ext h by simp
      moreover have "get s r' c' \<noteq> ?v" using v(3) h unfolding valid_iff[OF r c] by blast
      ultimately show ?thesis by simp
    qed
  qed
  moreover have "completion (grid_write b r c ?v) s"
    unfolding completion_iff
  proof (intro conjI allI impI)
    show "wf_board s" using L by (simp add: completion_iff)
    show "given s = given (grid_write b r c ?v)" using L by (simp add: completion_iff)
    fix r' c'
    assume h: "r' < SIZE \<and> c' < SIZE"
    have old: "if get b r' c' = 0
          then 1 \<le> get s r' c' \<and> get s r' c' \<le> 9 \<and> is_valid_move s r' c' (get s r' c')
          else get s r' c' = get b r' c'"
      using L h unfolding completion_iff by blast
    show "if get (grid_write b r c ?v) r' c' = 0
          then 1 \<le> get s r' c' \<and> get s r' c' \<le> 9 \<and> is_valid_move s r' c' (get s r' c')
          else get s r' c' = get (grid_write b r c ?v) r' c'"
    proof (cases "(r', c') = (r, c)")
      case True
      then show ?thesis using wf r c v by (simp add: get_grid_write)
    next
      case False
      then have "get (grid_write b r c ?v) r' c' = get b r' c'"
        using wf r c h by (auto simp: get_grid_write)
      then show ?thesis using old by simp
    qed
  qed
  ultimately show ?R using v by simp
next
  assume R: ?R
  let ?v = "get s r c"
  let ?b' = "grid_write b r c ?v"
  have v: "1 \<le> ?v" "?v \<le> 9" "is_valid_move b r c ?v" and C: "completion ?b' s"
    using R by auto
  have C': "\<And>r' c'. r' < SIZE \<Longrightarrow> c' < SIZE \<Longrightarrow>
       (if get ?b' r' c' = 0
          then 1 \<le> get s r' c' \<and> get s r' c' \<le> 9 \<and> is_valid_move s r' c' (get s r' c')
          else get s r' c' = get ?b' r' c')"
    using C unfolding completion_iff by blast
  have valid_s: "is_valid_move s r c ?v"
    unfolding valid_iff[OF r c]
  proof (intro allI impI)
    fix r' c'
    assume h: "r' < SIZE \<and> c' < SIZE \<and> (r', c') \<noteq> (r, c) \<and> same_unit r c r' c'"
    then have g: "get ?b' r' c' = get b r' c'"
      using wf r c by (auto simp: get_grid_write)
    show "get s r' c' \<noteq> ?v"
    proof (cases "get b r' c' = 0")
      case True
      then have "is_valid_move s r' c' (get s r' c')"
        using C'[of r' c'] h g by simp
      moreover have "same_unit r' c' r c" using h same_unit_sym by blast
      ultimately show ?thesis
        using h r c valid_iff[of r' c' s "get s r' c'"] by metis
    next
      case False
      then have "get s r' c' = get b r' c'" using C'[of r' c'] h g by simp
      moreover have "get b r' c' \<noteq> ?v" using v(3) h unfolding valid_iff[OF r c] by blast
      ultimately show ?thesis by simp
    qed
  qed
  show ?L
    unfolding completion_iff
  proof (intro conjI allI impI)
    show "wf_board s" using C by (simp add: completion_iff)
    show "given s = given b" using C by (simp add: completion_iff)
    fix r' c'
    assume h: "r' < SIZE \<and> c' < SIZE"
    show "if get b r' c' = 0
          then 1 \<le> get s r' c' \<and> get s r' c' \<le> 9 \<and> is_valid_move s r' c' (get s r' c')
          else get s r' c' = get b r' c'"
    proof (cases "(r', c') = (r, c)")
      case True
      then show ?thesis using e v valid_s by simp
    next
      case False
      then have "get ?b' r' c' = get b r' c'"
        using wf r c h by (auto simp: get_grid_write)
      then show ?thesis using C'[of r' c'] h by simp
    qed
  qed
qed

lemma completion_written:
  assumes "completion (grid_write b r c v) s" "wf_board b" "r < SIZE" "c < SIZE" "v \<noteq> 0"
  shows "get s r c = v"
  using assms unfolding completion_iff
  by (metis get_grid_write)

lemma solve_try_spec:
  assumes IH: "\<And>b. wf_board b \<Longrightarrow> empties b < n \<Longrightarrow>
                 \<exists>ok b'. solve_fuel n b = Some (ok, b') \<and> solve_post b ok b'"
    and wf: "wf_board b" and r: "r < SIZE" and c: "c < SIZE" and e: "get b r c = 0"
    and n: "empties b \<le> n"
    and nums: "\<forall>v\<in>set nums. 1 \<le> v \<and> v \<le> 9"
  shows "\<exists>ok b'. solve_try n r c nums b = Some (ok, b') \<and>
           (if ok then completion b b'
            else b' = b \<and> (\<forall>s. completion b s \<longrightarrow> get s r c \<notin> set nums))"
  using nums
proof (induction nums)
  case Nil
  have "solve_try n r c [] b = Some (False, b)" by simp
  then show ?case by auto
next
  case (Cons num nums)
  have num: "1 \<le> num" "num \<le> 9" "num \<noteq> 0" using Cons.prems by auto
  from Cons obtain ok b' where rest: "solve_try n r c nums b = Some (ok, b')"
      "if ok then completion b b' else b' = b \<and> (\<forall>s. completion b s \<longrightarrow> get s r c \<notin> set nums)"
    by auto
  show ?case
  proof (cases "is_valid_move b r c num")
    case False
    have "\<And>s. completion b s \<Longrightarrow> get s r c \<noteq> num"
      using False completion_step[OF wf r c e] by auto
    moreover have "solve_try n r c (num # nums) b = Some (ok, b')"
      using False rest by simp
    ultimately show ?thesis using rest(2) by (cases ok) auto
  next
    case True
    let ?b1 = "grid_write b r c num"
    have wf1: "wf_board ?b1" using wf by (rule wf_grid_write)
    have "empties ?b1 < n" using empties_grid_write[OF wf r c e num(3)] n by simp
    from IH[OF wf1 this] obtain ok1 b1' where
      s1: "solve_fuel n ?b1 = Some (ok1, b1')" "solve_post ?b1 ok1 b1'" by auto
    show ?thesis
    proof (cases ok1)
      case True
      then have C: "completion ?b1 b1'" using s1 by (simp add: solve_post_def)
      then have "get b1' r c = num" using completion_written wf r c num by blast
      then have "completion b b1'"
        using completion_step[OF wf r c e, of b1'] C num \<open>is_valid_move b r c num\<close> by simp
      moreover have "solve_try n r c (num # nums) b = Some (True, b1')"
        using s1 True \<open>is_valid_move b r c num\<close> by simp
      ultimately show ?thesis by auto
    next
      case False
      then have b1': "b1' = ?b1" and none: "\<And>s. \<not> completion ?b1 s"
        using s1 by (auto simp: solve_post_def)
      have restored: "grid_write b1' r c 0 = b"
        using b1' grid_write_restore[OF wf r c e] by simp
      have "\<And>s. completion b s \<Longrightarrow> get s r c \<noteq> num"
        using none completion_step[OF wf r c e] by auto
      moreover have "solve_try n r c (num # nums) b = Some (ok, b')"
        using s1 False \<open>is_valid_move b r c num\<close> restored rest by simp
      ultimately show ?thesis using rest(2) by (cases ok) auto
    qed
  qed
qed

lemma set_upto_19: "set [1..9] = {v::int. 1 \<le> v \<and> v \<le> 9}"
  by auto

lemma solve_fuel_spec:
  "wf_board b \<Longrightarrow> empties b < n \<Longrightarrow> \<exists>ok b'. solve_fuel n b = Some (ok, b') \<and> solve_post b ok b'"
proof (induction n arbitrary: b)
  case 0
  then show ?case by simp
next
  case (Suc n)
  show ?case
  proof (cases "find_empty_cell b")
    case None
    then have "solve_fuel (Suc n) b = Some (True, b)" "solve_post b True b"
      using Suc.prems completion_self by (simp_all add: solve_post_def)
    then show ?thesis by blast
  next
    case (Some p)
    obtain r c where p: "p = (r, c)" by (cases p)
    have rc: "r < SIZE" "c < SIZE" "get b r c = 0"
      using find_empty_Some Some p by auto
    have "\<exists>ok b'. solve_try n r c [1..9] b = Some (ok, b') \<and>
           (if ok then completion b b'
            else b' = b \<and> (\<forall>s. completion b s \<longrightarrow> get s r c \<notin> set [1..9]))"
      by (rule solve_try_spec[OF Suc.IH \<open>wf_board b\<close> rc]) (use Suc.prems in auto)
    then obtain ok b' where res: "solve_try n r c [1..9] b = Some (ok, b')"
      "if ok then completion b b'
            else b' = b \<and> (\<forall>s. completion b s \<longrightarrow> get s r c \<notin> set [1..9])" by auto
    have "\<And>s. completion b s \<Longrightarrow> get s r c \<in> set [1..9]"
      using completion_step[OF \<open>wf_board b\<close> rc] unfolding set_upto_19 by blast
    then have "solve_post b ok b'" using res(2) unfolding solve_post_def by (cases ok) auto
    then show ?thesis using Some p res(1) by simp
  qed
qed

lemma randbelow_less: "0 < n \<Longrightarrow> fst (randbelow n t) < n"
  by (simp add: randbelow_def split: list.splits)

lemma shuffle_from_perm:
  "i < length xs \<Longrightarrow>
   set (fst (shuffle_from i xs t)) = set xs \<and>
   distinct (fst (shuffle_from i xs t)) = distinct xs \<and>
   length (fst (shuffle_from i xs t)) = length xs"
proof (induction i arbitrary: xs t)
  case 0
  then show ?case by simp
next
  case (Suc i)
  obtain j t' where j: "randbelow (Suc i + 1) t = (j, t')" by (cases "randbelow (Suc i + 1) t")
  have "j < Suc i + 1" using randbelow_less[of "Suc i + 1" t] j by simp
  then have jl: "j < length xs" using Suc.prems by simp
  let ?ys = "xs[Suc i := xs ! j, j := xs ! Suc i]"
  have "set ?ys = set xs" "distinct ?ys = distinct xs" "length ?ys = length xs"
    using set_swap[OF Suc.prems jl] distinct_swap[OF Suc.prems jl] by simp_all
  moreover have "set (fst (shuffle_from i ?ys t')) = set ?ys \<and>
   distinct (fst (shuffle_from i ?ys t')) = distinct ?ys \<and>
   length (fst (shuffle_from i ?ys t')) = length ?ys"
    using Suc.IH[of ?ys t'] Suc.prems by simp
  ultimately show ?case using j by simp
qed

lemma shuffle_perm:
  "set (fst (shuffle xs t)) = set xs \<and> distinct (fst (shuffle xs t)) = distinct xs \<and>
   length (fst (shuffle xs t)) = length xs"
proof (cases xs)
  case Nil
  then show ?thesis by (simp add: shuffle_def)
next
  case (Cons a list)
  then show ?thesis unfolding shuffle_def by (intro shuffle_from_perm) simp
qed

lemma set_shuffle: "set (fst (shuffle xs t)) = set xs"
  by (simp add: shuffle_perm)

lemma distinct_shuffle: "distinct (fst (shuffle xs t)) = distinct xs"
  by (simp add: shuffle_perm)

lemma solve_rand_try_spec:
  assumes IH: "\<And>b t. wf_board b \<Longrightarrow> empties b < n \<Longrightarrow>
                 \<exists>ok b' t'. solve_with_randomness_fuel n b t = Some (ok, b', t') \<and> solve_post b ok b'"
    and wf: "wf_board b" and r: "r < SIZE" and c: "c < SIZE" and e: "get b r c = 0"
    and n: "empties b \<le> n"
    and nums: "\<forall>v\<in>set nums. 1 \<le> v \<and> v \<le> 9"
  shows "\<exists>ok b' t'. solve_with_randomness_try n r c nums b t = Some (ok, b', t') \<and>
           (if ok then completion b b'
            else b' = b \<and> (\<forall>s. completion b s \<longrightarrow> get s r c \<notin> set nums))"
  using nums
proof (induction nums arbitrary: t)
  case Nil
  have "solve_with_randomness_try n r c [] b t = Some (False, b, t)" by simp
  then show ?case by auto
next
  case (Cons num nums)
  have num: "1 \<le> num" "num \<le> 9" "num \<noteq> 0" using Cons.prems by auto
  have rest: "\<exists>ok b' t'. solve_with_randomness_try n r c nums b t = Some (ok, b', t') \<and>
      (if ok then completion b b' else b' = b \<and> (\<forall>s. completion b s \<longrightarrow> get s r c \<notin> set nums))"
    for t using Cons by auto
  show ?case
  proof (cases "is_valid_move b r c num")
    case False
    from rest[of t] obtain ok b' t' where res:
      "solve_with_randomness_try n r c nums b t = Some (ok, b', t')"
      "if ok then completion b b' else b' = b \<and> (\<forall>s. completion b s \<longrightarrow> get s r c \<notin> set nums)"
      by auto
    have "\<And>s. completion b s \<Longrightarrow> get s r c \<noteq> num"
      using False completion_step[OF wf r c e] by auto
    moreover have "solve_with_randomness_try n r c (num # nums) b t = Some (ok, b', t')"
      using False res by simp
    ultimately show ?thesis using res(2) by (cases ok) auto
  next
    case True
    let ?b1 = "grid_write b r c num"
    have wf1: "wf_board ?b1" using wf by (rule wf_grid_write)
    have "empties ?b1 < n" using empties_grid_write[OF wf r c e num(3)] n by simp
    from IH[OF wf1 this, of t] obtain ok1 b1' t1 where
      s1: "solve_with_randomness_fuel n ?b1 t = Some (ok1, b1', t1)" "solve_post ?b1 ok1 b1'" by auto
    show ?thesis
    proof (cases ok1)
      case True
      then have C: "completion ?b1 b1'" using s1 by (simp add: solve_post_def)
      then have "get b1' r c = num" using completion_written wf r c num by blast
      then have "completion b b1'"
        using completion_step[OF wf r c e, of b1'] C num \<open>is_valid_move b r c num\<close> by simp
      moreover have "solve_with_randomness_try n r c (num # nums) b t = Some (True, b1', t1)"
        using s1 True \<open>is_valid_move b r c num\<close> by simp
      ultimately show ?thesis by auto
    next
      case False
      then have b1': "b1' = ?b1" and none: "\<And>s. \<not> completion ?b1 s"
        using s1 by (auto simp: solve_post_def)
      have restored: "grid_write b1' r c 0 = b"
        using b1' grid_write_restore[OF wf r c e] by simp
      from rest[of t1] obtain ok b' t' where res:
        "solve_with_randomness_try n r c nums b t1 = Some (ok, b', t')"
        "if ok then completion b b' else b' = b \<and> (\<forall>s. completion b s \<longrightarrow> get s r c \<notin> set nums)"
        by auto
      have "\<And>s. completion b s \<Longrightarrow> get s r c \<noteq> num"
        using none completion_step[OF wf r c e] by auto
      moreover have "solve_with_randomness_try n r c (num # nums) b t = Some (ok, b', t')"
        using s1 False \<open>is_valid_move b r c num\<close> restored res by simp
      ultimately show ?thesis using res(2) by (cases ok) auto
    qed
  qed
qed

lemma solve_rand_fuel_spec:
  "wf_board b \<Longrightarrow> empties b < n \<Longrightarrow>
   \<exists>ok b' t'. solve_with_randomness_fuel n b t = Some (ok, b', t') \<and> solve_post b ok b'"
proof (induction n arbitrary: b t)
  case 0
  then show ?case by simp
next
  case (Suc n)
  show ?case
  proof (cases "find_empty_cell b")
    case None
    then have "solve_with_randomness_fuel (Suc n) b t = Some (True, b, t)" "solve_post b True b"
      using Suc.prems completion_self by (simp_all add: solve_post_def)
    then show ?thesis by blast
  next
    case (Some p)
    obtain r c where p: "p = (r, c)" by (cases p)
    have rc: "r < SIZE" "c < SIZE" "get b r c = 0"
      using find_empty_Some Some p by auto
    obtain nums t1 where sh: "shuffle [1..9] t = (nums, t1)" by (cases "shuffle [1..9] t")
    have sn: "set nums = set [1..9]" using set_shuffle[of "[1..9]" t] sh by simp
    have "\<exists>ok b' t'. solve_with_randomness_try n r c nums b t1 = Some (ok, b', t') \<and>
           (if ok then completion b b'
            else b' = b \<and> (\<forall>s. completion b s \<longrightarrow> get s r c \<notin> set nums))"
      by (rule solve_rand_try_spec[OF Suc.IH \<open>wf_board b\<close> rc]) (use Suc.prems sn in auto)
    then obtain ok b' t' where res: "solve_with_randomness_try n r c nums b t1 = Some (ok, b', t')"
      "if ok then completion b b'
            else b' = b \<and> (\<forall>s. completion b s \<longrightarrow> get s r c \<notin> set nums)" by auto
    have "\<And>s. completion b s \<Longrightarrow> get s r c \<in> set nums"
      using completion_step[OF \<open>wf_board b\<close> rc] unfolding sn set_upto_19 by blast
    then have "solve_post b ok b'" using res(2) unfolding solve_post_def by (cases ok) auto
    then show ?thesis using Some p res(1) sh by simp
  qed
qed

lemma cnt_cnt: "cnt limit (cnt limit count k1) k2 = cnt limit count (k1 + k2)"
  by (auto simp: cnt_def min_def)

lemma cnt_0: "cnt limit count 0 = count"
  by (auto simp: cnt_def)

lemma finite_sols: "finite (sols b)"
proof -
  define V where "V = {v::int. 1 \<le> v \<and> v \<le> 9} \<union> (\<lambda>(r, c). get b r c) ` set positions"
  define G where "G = {g. set g \<subseteq> {row. set row \<subseteq> V \<and> length row = SIZE} \<and> length g = SIZE}"
  have fV: "finite V" unfolding V_def by simp
  have "finite {row. set row \<subseteq> V \<and> length row = SIZE}"
    using fV by (rule finite_lists_length_eq)
  then have fG: "finite G" unfolding G_def by (rule finite_lists_length_eq)
  have "sols b \<subseteq> (\<lambda>g. \<lparr>grid = g, given = given b\<rparr>) ` G"
  proof
    fix s assume "s \<in> sols b"
    then have C: "completion b s" by (simp add: sols_def)
    then have wf: "wf_board s" and gv: "given s = given b" by (simp_all add: completion_iff)
    have cell: "get s r c \<in> V" if "r < SIZE" "c < SIZE" for r c
    proof (cases "get b r c = 0")
      case True
      then show ?thesis using C that unfolding completion_iff V_def by auto
    next
      case False
      then have "get s r c = get b r c" using C that unfolding completion_iff by auto
      moreover have "(r, c) \<in> set positions" using that by (simp add: in_positions)
      ultimately show ?thesis unfolding V_def by force
    qed
    have rows: "set row \<subseteq> V \<and> length row = SIZE" if "row \<in> set (grid s)" for row
    proof -
      from that obtain i where i: "i < length (grid s)" "row = grid s ! i"
        by (auto simp: in_set_conv_nth)
      then have iS: "i < SIZE" using wf by (simp add: wf_board_def)
      have len: "length row = SIZE" using wf i by (simp add: wf_board_def list_all_length)
      moreover have "set row \<subseteq> V"
      proof
        fix x assume "x \<in> set row"
        then obtain j where "j < length row" "x = row ! j" by (auto simp: in_set_conv_nth)
        then show "x \<in> V" using cell[of i j] iS len i by (simp add: get_def)
      qed
      ultimately show ?thesis by simp
    qed
    have "length (grid s) = SIZE" using wf by (simp add: wf_board_def)
    then have "grid s \<in> G" unfolding G_def using rows by blast
    moreover have "s = \<lparr>grid = grid s, given = given b\<rparr>" using gv by simp
    ultimately show "s \<in> (\<lambda>g. \<lparr>grid = g, given = given b\<rparr>) ` G" by blast
  qed
  moreover have "finite ((\<lambda>g. \<lparr>grid = g, given = given b\<rparr>) ` G)"
    using fG by (rule finite_imageI)
  ultimately show ?thesis by (rule finite_subset)
qed

lemma sols_cell:
  assumes wf: "wf_board b" and r: "r < SIZE" and c: "c < SIZE" and e: "get b r c = 0"
    and num: "1 \<le> num" "num \<le> 9"
  shows "{s \<in> sols b. get s r c = num} =
         (if is_valid_move b r c num then sols (grid_write b r c num) else {})"
proof -
  have "num \<noteq> 0" using num by simp
  then have w: "\<And>s. completion (grid_write b r c num) s \<Longrightarrow> get s r c = num"
    using completion_written wf r c by blast
  show ?thesis
    unfolding sols_def using completion_step[OF wf r c e] num w by auto
qed

lemma backtrack_try_spec:
  assumes IH: "\<And>b count. wf_board b \<Longrightarrow> empties b < n \<Longrightarrow>
                 backtrack n limit (count, b) = Some (cnt limit count (card (sols b)), b)"
    and wf: "wf_board b" and r: "r < SIZE" and c: "c < SIZE" and e: "get b r c = 0"
    and n: "empties b \<le> n"
    and nums: "\<forall>v\<in>set nums. 1 \<le> v \<and> v \<le> 9" "distinct nums"
  shows "backtrack_try n limit r c nums (count, b) =
           Some (cnt limit count (card {s \<in> sols b. get s r c \<in> set nums}), b)"
  using nums
proof (induction nums arbitrary: count)
  case Nil
  then show ?case by (simp add: cnt_0)
next
  case (Cons num nums)
  have num: "1 \<le> num" "num \<le> 9" "num \<noteq> 0" "num \<notin> set nums" using Cons.prems by auto
  let ?A = "{s \<in> sols b. get s r c = num}"
  let ?B = "{s \<in> sols b. get s r c \<in> set nums}"
  have split: "{s \<in> sols b. get s r c \<in> set (num # nums)} = ?A \<union> ?B" by auto
  have "?A \<inter> ?B = {}" using num(4) by auto
  moreover have "finite ?A" "finite ?B" using finite_sols[of b] by simp_all
  ultimately have card: "card {s \<in> sols b. get s r c \<in> set (num # nums)} = card ?A + card ?B"
    unfolding split by (rule_tac card_Un_disjoint)
  have rest: "backtrack_try n limit r c nums (count, b) = Some (cnt limit count (card ?B), b)"
    for count using Cons by simp
  show ?case
  proof (cases "is_valid_move b r c num")
    case False
    then have "?A = {}" using sols_cell[OF wf r c e num(1,2)] by simp
    then have "card ?A = 0" by (simp only: card.empty)
    then show ?thesis using False rest card by simp
  next
    case True
    let ?b1 = "grid_write b r c num"
    have wf1: "wf_board ?b1" using wf by (rule wf_grid_write)
    have "empties ?b1 < n" using empties_grid_write[OF wf r c e num(3)] n by simp
    from IH[OF wf1 this] have
      s1: "backtrack n limit (count, ?b1) = Some (cnt limit count (card (sols ?b1)), ?b1)" .
    have restored: "grid_write ?b1 r c 0 = b"
      using grid_write_restore[OF wf r c e] by simp
    have "card ?A = card (sols ?b1)" using True sols_cell[OF wf r c e num(1,2)] by simp
    then show ?thesis using True s1 restored rest card by (simp add: cnt_cnt)
  qed
qed

lemma backtrack_spec:
  "wf_board b \<Longrightarrow> empties b < n \<Longrightarrow>
   backtrack n limit (count, b) = Some (cnt limit count (card (sols b)), b)"
proof (induction n arbitrary: b count)
  case 0
  then show ?case by simp
next
  case (Suc n)
  show ?case
  proof (cases "limit \<le> count")
    case True
    then show ?thesis by (simp add: cnt_def)
  next
    case False
    show ?thesis
    proof (cases "find_empty_cell b")
      case None
      have "completion b b" using completion_self Suc.prems(1) None by blast
      moreover have "\<And>s. completion b s \<Longrightarrow> s = b"
        using completion_full_eq Suc.prems(1) None by blast
      ultimately have "sols b = {b}"
        unfolding sols_def by blast
      then show ?thesis using None False by (simp add: cnt_def)
    next
      case (Some p)
      obtain r c where p: "p = (r, c)" by (cases p)
      have rc: "r < SIZE" "c < SIZE" "get b r c = 0"
        using find_empty_Some Some p by auto
      have "backtrack_try n limit r c [1..9] (count, b) =
           Some (cnt limit count (card {s \<in> sols b. get s r c \<in> set [1..9]}), b)"
        by (rule backtrack_try_spec[OF Suc.IH \<open>wf_board b\<close> rc]) (use Suc.prems in auto)
      moreover have "\<And>s. completion b s \<Longrightarrow> get s r c \<in> set [1..9]"
        using completion_step[OF \<open>wf_board b\<close> rc] unfolding set_upto_19 by blast
      then have "{s \<in> sols b. get s r c \<in> set [1..9]} = sols b"
        unfolding sols_def by blast
      ultimately show ?thesis using Some p False by simp
    qed
  qed
qed

lemma wf_mark_given: "wf_board b \<Longrightarrow> wf_board (mark_given b r c)"
  by (cases "r < SIZE") (auto simp: mark_given_def wf_board_def list_all_length nth_list_update)

lemma wf_given_corner: "wf_board given_corner"
  unfolding given_corner_def by (intro wf_mark_given wf_new_board)

lemma wf_two_ones: "wf_board two_ones"
  unfolding two_ones_def by (intro wf_grid_write wf_new_board)

lemma get_new_board: "r < SIZE \<Longrightarrow> c < SIZE \<Longrightarrow> get new_board r c = 0"
  by (simp add: get_def new_board_def)

lemma is_valid_move_self_indep:
  assumes "wf_board b" "r < SIZE" "c < SIZE"
  shows "is_valid_move (grid_write b r c x) r c v = is_valid_move b r c v"
  unfolding valid_iff[OF assms(2,3)] using assms by (auto simp: get_grid_write)

lemma length_positions: "length positions = 81"
  by (simp add: positions_def SIZE_def)

lemma empties_le: "empties b < recursion_limit"
proof -
  have "empties b \<le> length positions" unfolding empties_def by (rule length_filter_le)
  then show ?thesis by (simp add: length_positions recursion_limit_def)
qed

lemma solve_spec:
  "wf_board b \<Longrightarrow> \<exists>ok b'. solve b = Some (ok, b') \<and> solve_post b ok b'"
  unfolding solve_def by (rule solve_fuel_spec[OF _ empties_le])

lemma solve_with_randomness_spec:
  "wf_board b \<Longrightarrow>
   \<exists>ok b' t'. solve_with_randomness b t = Some (ok, b', t') \<and> solve_post b ok b'"
  unfolding solve_with_randomness_def by (rule solve_rand_fuel_spec[OF _ empties_le])

lemma count_solutions_spec:
  "wf_board b \<Longrightarrow> count_solutions b limit = Some (cnt limit 0 (card (sols b)), b)"
  unfolding count_solutions_def by (rule backtrack_spec[OF _ empties_le])

lemma wf_copy [simp]: "copy b = b"
  by (simp add: copy_def)

lemma grid_write_given_update:
  "grid_write (b\<lparr>given := f\<rparr>) r c v = (grid_write b r c v)\<lparr>given := f\<rparr>"
  by (simp add: grid_write_def)

lemma find_empty_given_update [simp]: "find_empty_cell (b\<lparr>given := f\<rparr>) = find_empty_cell b"
  by (simp add: find_empty_cell_def)

lemma is_valid_move_given_update [simp]:
  "is_valid_move (b\<lparr>given := f\<rparr>) r c v = is_valid_move b r c v"
  by (simp add: is_valid_move_def)

lemma solve_fuel_given_update:
  "solve_fuel n (b\<lparr>given := f\<rparr>) =
     map_option (\<lambda>(ok, b'). (ok, b'\<lparr>given := f\<rparr>)) (solve_fuel n b)"
  and solve_try_given_update:
  "solve_try n r c nums (b\<lparr>given := f\<rparr>) =
     map_option (\<lambda>(ok, b'). (ok, b'\<lparr>given := f\<rparr>)) (solve_try n r c nums b)"
proof (induction n b and n r c nums b rule: solve_fuel_solve_try.induct)
  case (1 b)
  then show ?case by simp
next
  case (2 n b)
  then show ?case by (simp split: option.splits)
next
  case (3 n row col b)
  then show ?case by simp
next
  case (4 n row col num numbers b)
  show ?case
  proof (cases "is_valid_move b row col num")
    case False
    then show ?thesis using 4 by simp
  next
    case True
    show ?thesis
    proof (cases "solve_fuel n (grid_write b row col num)")
      case None
      then show ?thesis using True 4(1) by (simp add: grid_write_given_update)
    next
      case (Some p)
      obtain ok b' where p: "p = (ok, b')" by (cases p)
      show ?thesis
      proof (cases ok)
        case True
        then show ?thesis
          using \<open>is_valid_move b row col num\<close> Some p 4(1)
          by (simp add: grid_write_given_update)
      next
        case False
        then show ?thesis
          using \<open>is_valid_move b row col num\<close> Some p 4(1) 4(2)[of p ok b']
          by (simp add: grid_write_given_update)
      qed
    qed
  qed
qed

lemma wf_fold_grid_write:
  "wf_board b \<Longrightarrow> wf_board (fold (\<lambda>col b. grid_write b r col v) cs b)"
  by (induction cs arbitrary: b) (simp_all add: wf_grid_write)

lemma get_fold_grid_write:
  "wf_board b \<Longrightarrow> r < SIZE \<Longrightarrow> \<forall>c\<in>set cs. c < SIZE \<Longrightarrow> r' < SIZE \<Longrightarrow> c' < SIZE \<Longrightarrow>
   get (fold (\<lambda>col b. grid_write b r col v) cs b) r' c' =
     (if r' = r \<and> c' \<in> set cs then v else get b r' c')"
proof (induction cs arbitrary: b)
  case Nil
  then show ?case by simp
next
  case (Cons a cs)
  have "wf_board (grid_write b r a v)" using Cons.prems(1) by (rule wf_grid_write)
  then show ?case using Cons by (auto simp: get_grid_write)
qed

lemma wf_nine_ones: "wf_board nine_ones"
  unfolding nine_ones_def by (intro wf_fold_grid_write wf_new_board)

lemma get_nine_ones:
  "r < SIZE \<Longrightarrow> c < SIZE \<Longrightarrow> get nine_ones r c = (if r = 0 then 1 else 0)"
  unfolding nine_ones_def
  by (subst get_fold_grid_write) (auto simp: wf_new_board get_new_board SIZE_def)

lemma nine_ones_no_completion: "\<not> completion nine_ones s"
proof
  assume C: "completion nine_ones s"
  have S: "(0::nat) < SIZE" "(1::nat) < SIZE" by (simp_all add: SIZE_def)
  have top: "get s 0 c = 1" if "c < SIZE" for c
    using C that S get_nine_ones[of 0 c] unfolding completion_iff
    by (metis one_neq_zero)
  have row1: "1 \<le> get s 1 c \<and> get s 1 c \<le> 9 \<and> is_valid_move s 1 c (get s 1 c)"
    if "c < SIZE" for c
    using C that S get_nine_ones[of 1 c] unfolding completion_iff
    by (metis zero_neq_one)
  have peers: "get s r' c' \<noteq> get s 1 c"
    if "c < SIZE" "r' < SIZE" "c' < SIZE" "(r', c') \<noteq> (1, c)" "same_unit 1 c r' c'" for c r' c'
  proof -
    have "is_valid_move s 1 c (get s 1 c)" using row1 that(1) by simp
    then show ?thesis unfolding valid_iff[OF S(2) that(1)] using that by blast
  qed
  have ne1: "get s 1 c \<noteq> 1" if "c < SIZE" for c
    using peers[of c 0 c] top[of c] that S by (simp add: same_unit_def)
  have inj: "inj_on (\<lambda>c. get s 1 c) {0..<SIZE}"
  proof (rule inj_onI)
    fix c c' assume h: "c \<in> {0..<SIZE}" "c' \<in> {0..<SIZE}" "get s 1 c = get s 1 c'"
    show "c = c'"
    proof (rule ccontr)
      assume "c \<noteq> c'"
      then have "get s 1 c' \<noteq> get s 1 c"
        using peers[of c 1 c'] h(1,2) S by (simp add: same_unit_def)
      then show False using h by simp
    qed
  qed
  have "(\<lambda>c. get s 1 c) ` {0..<SIZE} \<subseteq> {2..9}"
    using row1 ne1 by force
  then have "card {0..<SIZE} \<le> card {2..9::int}"
    using inj by (metis card_inj_on_le finite_atLeastAtMost_int)
  then show False by (simp add: SIZE_def)
qed

section \<open>Properties of the generator\<close>


lemma ball_positions:
  "(\<forall>p\<in>set positions. P p) = (\<forall>r c. r < SIZE \<and> c < SIZE \<longrightarrow> P (r, c))"
  by (auto simp: in_positions)

lemma valid_full_iff:
  "valid_full s = (wf_board s \<and> (\<forall>r c. r < SIZE \<and> c < SIZE \<longrightarrow>
      1 \<le> get s r c \<and> get s r c \<le> 9 \<and> is_valid_move s r c (get s r c)))"
  unfolding valid_full_def list_all_iff ball_positions by simp

lemma sub_board_iff:
  "sub_board b s = (wf_board b \<and> given b = given s \<and>
     (\<forall>r c. r < SIZE \<and> c < SIZE \<longrightarrow> get b r c = 0 \<or> get b r c = get s r c))"
  unfolding sub_board_def list_all_iff ball_positions by simp

lemma completion_of_valid:
  assumes "valid_full s" "sub_board b s"
  shows "completion b s"
proof -
  have v: "\<And>r c. r < SIZE \<Longrightarrow> c < SIZE \<Longrightarrow>
      1 \<le> get s r c \<and> get s r c \<le> 9 \<and> is_valid_move s r c (get s r c)"
    using assms(1) unfolding valid_full_iff by blast
  have e: "\<And>r c. r < SIZE \<Longrightarrow> c < SIZE \<Longrightarrow> get b r c = 0 \<or> get b r c = get s r c"
    using assms(2) unfolding sub_board_iff by blast
  have "wf_board s" "given s = given b"
    using assms unfolding valid_full_iff sub_board_iff by simp_all
  then show ?thesis unfolding completion_iff using v e by force
qed

lemma completion_sub_board:
  assumes "completion b s" "wf_board b"
  shows "sub_board b s"
proof -
  have "\<And>r c. r < SIZE \<Longrightarrow> c < SIZE \<Longrightarrow> get b r c = 0 \<or> get b r c = get s r c"
    using assms(1) unfolding completion_iff by metis
  moreover have "given b = given s" using assms(1) unfolding completion_iff by simp
  ultimately show ?thesis unfolding sub_board_iff using assms(2) by blast
qed

lemma completion_valid_full:
  assumes S: "valid_full S" and bS: "sub_board b S" and C: "completion b s"
  shows "valid_full s"
proof -
  have wfs: "wf_board s" using C by (simp add: completion_iff)
  have "1 \<le> get s r c \<and> get s r c \<le> 9 \<and> is_valid_move s r c (get s r c)"
    if rc: "r < SIZE \<and> c < SIZE" for r c
  proof -
  have Cc: "\<And>r c. r < SIZE \<Longrightarrow> c < SIZE \<Longrightarrow>
         (if get b r c = 0
          then 1 \<le> get s r c \<and> get s r c \<le> 9 \<and> is_valid_move s r c (get s r c)
          else get s r c = get b r c)"
    using C unfolding completion_iff by blast
  have Sc: "\<And>r c. r < SIZE \<Longrightarrow> c < SIZE \<Longrightarrow>
      1 \<le> get S r c \<and> get S r c \<le> 9 \<and> is_valid_move S r c (get S r c)"
    using S unfolding valid_full_iff by blast
  have bc: "\<And>r c. r < SIZE \<Longrightarrow> c < SIZE \<Longrightarrow> get b r c = 0 \<or> get b r c = get S r c"
    using bS unfolding sub_board_iff by blast
  show ?thesis
  proof (cases "get b r c = 0")
    case True
    then show ?thesis using Cc[of r c] rc by simp
  next
    case False
    then have e: "get s r c = get S r c" using Cc[of r c] bc[of r c] rc by auto
    have "is_valid_move s r c (get s r c)"
      unfolding valid_iff[of r c, OF conjunct1[OF rc] conjunct2[OF rc]]
    proof (intro allI impI)
      fix r' c'
      assume h: "r' < SIZE \<and> c' < SIZE \<and> (r', c') \<noteq> (r, c) \<and> same_unit r c r' c'"
      show "get s r' c' \<noteq> get s r c"
      proof (cases "get b r' c' = 0")
        case True
        then have "is_valid_move s r' c' (get s r' c')" using Cc[of r' c'] h by simp
        moreover have "same_unit r' c' r c" using h same_unit_sym by blast
        ultimately have "get s r c \<noteq> get s r' c'"
          using h rc valid_iff[of r' c' s "get s r' c'"] by (metis)
        then show ?thesis by simp
      next
        case False
        then have "get s r' c' = get S r' c'" using Cc[of r' c'] bc[of r' c'] h by auto
        moreover have "get S r' c' \<noteq> get S r c"
          using Sc[of r c] rc h valid_iff[of r c S "get S r c"] by blast
        ultimately show ?thesis using e by simp
      qed
    qed
    then show ?thesis using e Sc[of r c] rc by simp
  qed
  qed
  then show ?thesis unfolding valid_full_iff using wfs by blast
qed

lemma sols_char:
  assumes "valid_full S" "sub_board b S"
  shows "sols b = {s. valid_full s \<and> sub_board b s}"
proof -
  have wf: "wf_board b" using assms(2) by (simp add: sub_board_iff)
  show ?thesis
    unfolding sols_def
    using completion_valid_full[OF assms] completion_sub_board[OF _ wf] completion_of_valid
    by blast
qed

lemma sub_board_trans:
  "sub_board a b \<Longrightarrow> sub_board b s \<Longrightarrow> sub_board a s"
  unfolding sub_board_iff by (metis)

lemma sub_board_grid_write0:
  assumes "wf_board b" "r < SIZE" "c < SIZE"
  shows "sub_board (grid_write b r c 0) b"
  unfolding sub_board_iff using assms by (auto simp: wf_grid_write get_grid_write)

lemma sub_board_refl: "wf_board b \<Longrightarrow> sub_board b b"
  by (simp add: sub_board_iff)

lemma grid_write_same:
  assumes "wf_board b" "r < SIZE" "c < SIZE"
  shows "grid_write (grid_write b r c v) r c (get b r c) = b"
  by (rule board_eqI) (use assms in \<open>auto simp: wf_grid_write get_grid_write\<close>)

lemma grid_write_id:
  assumes "wf_board b" "r < SIZE" "c < SIZE"
  shows "grid_write b r c (get b r c) = b"
  by (rule board_eqI) (use assms in \<open>auto simp: wf_grid_write get_grid_write\<close>)

declare remove_loop.simps [simp del]

lemma remove_loop_step:
  assumes "wf_board b"
  shows "remove_loop b count m ps removed attempts =
     (if removed < count \<and> attempts < m then
        (if ps = [] then Some b
         else (case last ps of (row, col) \<Rightarrow>
                 if cnt 2 0 (card (sols (grid_write b row col 0))) = 1
                 then remove_loop (grid_write b row col 0) count m (butlast ps) (removed + 1) (attempts + 1)
                 else remove_loop (grid_write (grid_write b row col 0) row col (grid b ! row ! col))
                        count m (butlast ps) removed (attempts + 1)))
      else Some b)"
proof -
  have "count_solutions (copy (grid_write b row col 0)) 2 =
        Some (cnt 2 0 (card (sols (grid_write b row col 0))), grid_write b row col 0)" for row col
    using count_solutions_spec[OF wf_grid_write[OF assms]] by simp
  then show ?thesis
    by (subst remove_loop.simps) (simp add: Let_def split: prod.splits)
qed


lemma remove_loop_spec:
  assumes "wf_board b" "\<forall>p\<in>set ps. fst p < SIZE \<and> snd p < SIZE" "removed \<le> count"
  shows "\<exists>b'. remove_loop b count m ps removed attempts = Some b' \<and> wf_board b' \<and>
           given b' = given b \<and> sub_board b' b \<and>
           (unique_sol b \<longrightarrow> unique_sol b') \<and>
           empties b' + removed \<le> empties b + count"
  using assms
proof (induction ps arbitrary: b removed attempts rule: rev_induct)
  case Nil
  then show ?case by (simp add: remove_loop_step sub_board_refl)
next
  case (snoc p ps)
  obtain row col where p: "p = (row, col)" by (cases p)
  have rc: "row < SIZE" "col < SIZE" using snoc.prems(2) p by auto
  have ps: "\<forall>p\<in>set ps. fst p < SIZE \<and> snd p < SIZE" using snoc.prems(2) by simp
  let ?b1 = "grid_write b row col 0"
  have wf1: "wf_board ?b1" using snoc.prems(1) by (rule wf_grid_write)
  show ?case
  proof (cases "removed < count \<and> attempts < m")
    case False
    then have "remove_loop b count m (ps @ [p]) removed attempts = Some b"
      using snoc.prems(1) by (subst remove_loop_step) auto
    then show ?thesis using snoc.prems by (simp add: sub_board_refl)
  next
    case True
    show ?thesis
    proof (cases "cnt 2 0 (card (sols ?b1)) = 1")
      case yes: True
      from snoc.IH[OF wf1 ps, of "removed + 1" "attempts + 1"] True
      obtain b' where r: "remove_loop ?b1 count m ps (removed + 1) (attempts + 1) = Some b'"
        "wf_board b'" "given b' = given ?b1" "sub_board b' ?b1"
        "unique_sol ?b1 \<longrightarrow> unique_sol b'"
        "empties b' + (removed + 1) \<le> empties ?b1 + count" by auto
      have e: "empties ?b1 \<le> empties b + 1"
      proof (cases "get b row col = 0")
        case True
        then have "?b1 = b"
          using grid_write_id[OF snoc.prems(1) rc] by simp
        then show ?thesis by simp
      next
        case False
        have "get ?b1 row col = 0" using snoc.prems(1) rc by (simp add: get_grid_write)
        from empties_grid_write[OF wf1 rc this False]
        have "empties ?b1 = Suc (empties (grid_write ?b1 row col (get b row col)))" .
        then show ?thesis using grid_write_same[OF snoc.prems(1) rc, of 0] by simp
      qed
      have "sub_board b' b"
        using sub_board_trans[OF r(4) sub_board_grid_write0[OF snoc.prems(1) rc]] .
      moreover have "remove_loop b count m (ps @ [p]) removed attempts = Some b'"
        using True yes r(1) p snoc.prems(1) by (simp add: remove_loop_step)
      moreover have "unique_sol b'" using r(5) yes by (simp add: unique_sol_def)
      ultimately show ?thesis using r e by auto
    next
      case no: False
      have restored: "grid_write ?b1 row col (grid b ! row ! col) = b"
        using grid_write_same[OF snoc.prems(1) rc, of 0] by (simp add: get_def)
      from snoc.IH[OF snoc.prems(1) ps snoc.prems(3), of "attempts + 1"]
      obtain b' where r: "remove_loop b count m ps removed (attempts + 1) = Some b'"
        "wf_board b'" "given b' = given b" "sub_board b' b"
        "unique_sol b \<longrightarrow> unique_sol b'"
        "empties b' + removed \<le> empties b + count" by auto
      have "remove_loop b count m (ps @ [p]) removed attempts = Some b'"
        using True no r(1) p snoc.prems(1) restored by (simp add: remove_loop_step)
      then show ?thesis using r by auto
    qed
  qed
qed




lemma cnt2_eq1: "(cnt 2 0 k = 1) = (k = 1)"
  by (auto simp: cnt_def min_def)

lemma wf_clear_cells: "wf_board b \<Longrightarrow> wf_board (clear_cells b cs)"
  unfolding clear_cells_def
  by (induction cs arbitrary: b) (auto simp: wf_grid_write)

lemma sub_board_clear_cells:
  "wf_board b \<Longrightarrow> \<forall>p\<in>set cs. fst p < SIZE \<and> snd p < SIZE \<Longrightarrow> sub_board (clear_cells b cs) b"
proof (induction cs arbitrary: b)
  case Nil
  then show ?case by (simp add: clear_cells_def sub_board_refl)
next
  case (Cons p cs)
  obtain r c where p: "p = (r, c)" by (cases p)
  have rc: "r < SIZE" "c < SIZE" using Cons.prems(2) p by auto
  have "sub_board (clear_cells (grid_write b r c 0) cs) (grid_write b r c 0)"
    using Cons.IH[OF wf_grid_write[OF Cons.prems(1)]] Cons.prems(2) by simp
  then have "sub_board (clear_cells (grid_write b r c 0) cs) b"
    using sub_board_trans sub_board_grid_write0[OF Cons.prems(1) rc] by blast
  then show ?case by (simp add: clear_cells_def p)
qed

lemma unique_sol_mono:
  assumes S: "valid_full S" and bS: "sub_board b S" and fb: "sub_board f b" and U: "unique_sol f"
  shows "unique_sol b"
proof -
  have fS: "sub_board f S" using sub_board_trans[OF fb bS] .
  have "sols b \<subseteq> sols f"
    unfolding sols_char[OF S bS] sols_char[OF S fS] using sub_board_trans[OF fb] by blast
  moreover have "S \<in> sols b" unfolding sols_char[OF S bS] using S bS by simp
  moreover have "card (sols f) = 1" using U by (simp add: unique_sol_def cnt2_eq1)
  ultimately have "sols b = sols f"
    by (metis card_1_singletonE empty_iff subset_singletonD)
  then show ?thesis using U by (simp add: unique_sol_def)
qed

lemma accept_phase:
  assumes S: "valid_full S"
  shows "sub_board b S \<Longrightarrow> \<forall>p\<in>set es. fst p < SIZE \<and> snd p < SIZE \<Longrightarrow>
         unique_sol (clear_cells b (rev es)) \<Longrightarrow>
         removed + length es \<le> count \<Longrightarrow> attempts + length es \<le> m \<Longrightarrow>
         remove_loop b count m (qs @ es) removed attempts =
         remove_loop (clear_cells b (rev es)) count m qs (removed + length es) (attempts + length es)"
proof (induction es arbitrary: b removed attempts rule: rev_induct)
  case Nil
  then show ?case by (simp add: clear_cells_def)
next
  case (snoc p es)
  obtain r c where p: "p = (r, c)" by (cases p)
  have rc: "r < SIZE" "c < SIZE" using snoc.prems(2) p by auto
  have wf: "wf_board b" using snoc.prems(1) by (simp add: sub_board_iff)
  let ?b1 = "grid_write b r c 0"
  have wf1: "wf_board ?b1" using wf by (rule wf_grid_write)
  have b1S: "sub_board ?b1 S"
    using sub_board_trans[OF sub_board_grid_write0[OF wf rc] snoc.prems(1)] .
  have fin: "clear_cells b (rev (es @ [p])) = clear_cells ?b1 (rev es)"
    by (simp add: clear_cells_def p)
  have es: "\<forall>p\<in>set es. fst p < SIZE \<and> snd p < SIZE" using snoc.prems(2) by simp
  have "sub_board (clear_cells ?b1 (rev es)) ?b1"
    by (rule sub_board_clear_cells[OF wf1]) (use es in simp)
  then have U1: "unique_sol ?b1"
    using unique_sol_mono[OF S b1S] snoc.prems(3) fin by simp
  have go: "removed < count \<and> attempts < m" using snoc.prems(4,5) by simp
  have "remove_loop b count m (qs @ es @ [p]) removed attempts =
        remove_loop ?b1 count m (qs @ es) (removed + 1) (attempts + 1)"
    using go U1 p by (subst remove_loop_step[OF wf]) (simp add: unique_sol_def butlast_append)
  also have "\<dots> = remove_loop (clear_cells ?b1 (rev es)) count m qs
                     (removed + 1 + length es) (attempts + 1 + length es)"
    by (rule snoc.IH[OF b1S es]) (use snoc.prems fin in simp_all)
  finally show ?case using fin by (simp add: add.commute add.left_commute)
qed

lemma reject_phase:
  assumes S: "valid_full S" and PS: "sub_board P S"
  shows "\<forall>q\<in>set qs. fst q < SIZE \<and> snd q < SIZE \<and>
           (\<exists>alt. valid_full alt \<and> sub_board (grid_write P (fst q) (snd q) 0) alt \<and> alt \<noteq> S) \<Longrightarrow>
         remove_loop P count m qs removed attempts = Some P"
proof (induction qs arbitrary: removed attempts rule: rev_induct)
  case Nil
  have "wf_board P" using PS by (simp add: sub_board_iff)
  then show ?case by (simp add: remove_loop_step)
next
  case (snoc q qs)
  obtain r c where q: "q = (r, c)" by (cases q)
  have wf: "wf_board P" using PS by (simp add: sub_board_iff)
  have rc: "r < SIZE" "c < SIZE" using snoc.prems q by auto
  obtain alt where alt: "valid_full alt" "sub_board (grid_write P r c 0) alt" "alt \<noteq> S"
    using snoc.prems q by auto
  let ?b1 = "grid_write P r c 0"
  have b1S: "sub_board ?b1 S"
    using sub_board_trans[OF sub_board_grid_write0[OF wf rc] PS] .
  have "S \<in> sols ?b1" "alt \<in> sols ?b1"
    unfolding sols_def using completion_of_valid S b1S alt by simp_all
  then have "{S, alt} \<subseteq> sols ?b1" by simp
  then have "card {S, alt} \<le> card (sols ?b1)"
    using finite_sols card_mono by blast
  then have "2 \<le> card (sols ?b1)" using alt(3) by simp
  then have no: "cnt 2 0 (card (sols ?b1)) \<noteq> 1" by (simp add: cnt2_eq1)
  have restored: "grid_write ?b1 r c (grid b ! r ! c) = P" if "b = P" for b
    using grid_write_same[OF wf rc, of 0] that by (simp add: get_def)
  have rest: "remove_loop P count m qs removed (attempts + 1) = Some P"
    using snoc.IH snoc.prems by simp
  show ?case
  proof (cases "removed < count \<and> attempts < m")
    case False
    then show ?thesis by (subst remove_loop_step[OF wf]) auto
  next
    case True
    then show ?thesis
      using no q rest restored[of P]
      by (subst remove_loop_step[OF wf]) (simp add: butlast_append)
  qed
qed

lemma wf_write_cells: "wf_board b \<Longrightarrow> wf_board (write_cells b ws)"
  unfolding write_cells_def
  by (induction ws arbitrary: b) (auto simp: wf_grid_write)

lemma given_write_cells: "given (write_cells b ws) = given b"
  unfolding write_cells_def
  by (induction ws arbitrary: b) auto

lemma get_write_cells_other:
  "wf_board b \<Longrightarrow> r < SIZE \<Longrightarrow> c < SIZE \<Longrightarrow> (r, c) \<notin> fst ` set ws \<Longrightarrow>
   \<forall>w\<in>set ws. fst (fst w) < SIZE \<and> snd (fst w) < SIZE \<Longrightarrow>
   get (write_cells b ws) r c = get b r c"
proof (induction ws arbitrary: b)
  case Nil
  then show ?case by (simp add: write_cells_def)
next
  case (Cons w ws)
  obtain r' c' v where w: "w = ((r', c'), v)" by (cases w) auto
  have "get (write_cells (grid_write b r' c' v) ws) r c = get (grid_write b r' c' v) r c"
    using Cons.IH[OF wf_grid_write[OF Cons.prems(1)] Cons.prems(2,3)] Cons.prems(4,5) by simp
  also have "\<dots> = get b r c"
    using Cons.prems w by (auto simp: get_grid_write)
  finally show ?case by (simp add: write_cells_def w)
qed

lemma alt_ok_sound:
  assumes S: "valid_full S" and PS: "sub_board P S" and ok: "alt_ok S P (q, changes)"
  shows "fst q < SIZE \<and> snd q < SIZE \<and>
         (\<exists>alt. valid_full alt \<and> sub_board (grid_write P (fst q) (snd q) 0) alt \<and> alt \<noteq> S)"
proof -
  let ?a = "write_cells S changes"
  have wfS: "wf_board S" using S by (simp add: valid_full_iff)
  have wfP: "wf_board P" using PS by (simp add: sub_board_iff)
  have wfa: "wf_board ?a" using wfS by (rule wf_write_cells)
  have q: "fst q < SIZE" "snd q < SIZE" and ne: "get ?a (fst q) (snd q) \<noteq> get S (fst q) (snd q)"
    and sub: "\<forall>p\<in>set positions. case p of (r, c) \<Rightarrow> (r, c) = q \<or> get P r c = 0 \<or> get P r c = get ?a r c"
    and ch: "\<forall>w\<in>set changes. case w of ((r, c), v) \<Rightarrow> r < SIZE \<and> c < SIZE \<and> 1 \<le> v \<and> v \<le> 9 \<and>
               is_valid_move ?a r c v \<and> get ?a r c = v"
    using ok unfolding alt_ok_def Let_def list_all_iff by auto
  have chr: "\<forall>w\<in>set changes. fst (fst w) < SIZE \<and> snd (fst w) < SIZE"
    using ch by auto
  have Sc: "\<And>r c. r < SIZE \<Longrightarrow> c < SIZE \<Longrightarrow>
      1 \<le> get S r c \<and> get S r c \<le> 9 \<and> is_valid_move S r c (get S r c)"
    using S unfolding valid_full_iff by blast
  have cell: "1 \<le> get ?a r c \<and> get ?a r c \<le> 9 \<and> is_valid_move ?a r c (get ?a r c)"
    if rc: "r < SIZE" "c < SIZE" for r c
  proof (cases "(r, c) \<in> fst ` set changes")
    case True
    then obtain v where "((r, c), v) \<in> set changes" by force
    then show ?thesis using ch by fastforce
  next
    case False
    have e: "get ?a r c = get S r c"
      using get_write_cells_other[OF wfS rc False chr] .
    have "is_valid_move ?a r c (get S r c)"
      unfolding valid_iff[OF rc]
    proof (intro allI impI)
      fix r' c'
      assume h: "r' < SIZE \<and> c' < SIZE \<and> (r', c') \<noteq> (r, c) \<and> same_unit r c r' c'"
      show "get ?a r' c' \<noteq> get S r c"
      proof (cases "(r', c') \<in> fst ` set changes")
        case True
        then obtain v where "((r', c'), v) \<in> set changes" by force
        then have "is_valid_move ?a r' c' (get ?a r' c')" using ch by fastforce
        moreover have "same_unit r' c' r c" using h same_unit_sym by blast
        ultimately have "get ?a r c \<noteq> get ?a r' c'"
          using h rc valid_iff[of r' c' ?a "get ?a r' c'"] by metis
        then show ?thesis using e by simp
      next
        case False
        then have "get ?a r' c' = get S r' c'"
          using get_write_cells_other[OF wfS _ _ False chr] h by simp
        moreover have "get S r' c' \<noteq> get S r c"
          using Sc[OF rc] h valid_iff[OF rc, of S "get S r c"] by blast
        ultimately show ?thesis by simp
      qed
    qed
    then show ?thesis using e Sc[OF rc] by simp
  qed
  have va: "valid_full ?a" unfolding valid_full_iff using wfa cell by blast
  have "sub_board (grid_write P (fst q) (snd q) 0) ?a"
    unfolding sub_board_iff
  proof (intro conjI allI impI)
    show "wf_board (grid_write P (fst q) (snd q) 0)" using wfP by (rule wf_grid_write)
    show "given (grid_write P (fst q) (snd q) 0) = given ?a"
      using PS by (simp add: given_write_cells sub_board_iff)
    fix r c assume rc: "r < SIZE \<and> c < SIZE"
    then have "(r, c) = q \<or> get P r c = 0 \<or> get P r c = get ?a r c"
      using sub by (auto simp: in_positions)
    then show "get (grid_write P (fst q) (snd q) 0) r c = 0 \<or>
               get (grid_write P (fst q) (snd q) 0) r c = get ?a r c"
      using wfP q rc by (auto simp: get_grid_write)
  qed
  moreover have "?a \<noteq> S" using ne by auto
  ultimately show ?thesis using va q by blast
qed




lemma cx_complete: "generate_complete_board cx_tape = Some (cx_full, drop 456 cx_tape)"
  by code_simp

lemma cx_valid: "valid_full cx_full"
  by code_simp

lemma cx_alts_ok: "list_all (alt_ok cx_full cx_puzzle) cx_alts"
  by code_simp

lemma cx_alts_clues: "map fst cx_alts = cx_clues"
  by code_simp

lemma cx_randint: "randint 54 58 (drop 456 cx_tape) = (54, drop 457 cx_tape)"
  by code_simp

lemma cx_shuffle: "shuffle positions (drop 457 cx_tape) = (cx_clues @ cx_removed, [])"
  by code_simp

lemma cx_clear: "clear_cells cx_full (rev cx_removed) = cx_puzzle"
  by code_simp

lemma cx_removed_range: "list_all (\<lambda>p. fst p < SIZE \<and> snd p < SIZE) cx_removed"
  by code_simp

lemma cx_removed_length: "length cx_removed = 53"
  by code_simp

lemma cx_mark: "mark_nonzero_given cx_puzzle = cx_board"
  by code_simp

lemma cx_given_count: "given_count cx_board = 28"
  by code_simp

lemma cx_count: "count_solutions cx_puzzle 2 = Some (1, cx_puzzle)"
  by code_simp

lemma cx_sub: "sub_board cx_puzzle cx_full"
  by code_simp

lemma cx_unique: "unique_sol cx_puzzle"
proof -
  have "wf_board cx_puzzle" using cx_sub by (simp add: sub_board_iff)
  from count_solutions_spec[OF this, of 2] cx_count show ?thesis
    by (simp add: unique_sol_def)
qed

lemma cx_remove_loop: "remove_loop cx_full 54 (54 * 3) (cx_clues @ cx_removed) 0 0 = Some cx_puzzle"
proof -
  have wf: "wf_board cx_full" using cx_valid by (simp add: valid_full_iff)
  have "remove_loop cx_full 54 (54 * 3) (cx_clues @ cx_removed) 0 0 =
        remove_loop (clear_cells cx_full (rev cx_removed)) 54 (54 * 3) cx_clues
          (0 + length cx_removed) (0 + length cx_removed)"
    by (rule accept_phase[OF cx_valid sub_board_refl[OF wf]])
       (use cx_removed_range cx_unique cx_clear cx_removed_length in \<open>simp_all add: list_all_iff\<close>)
  also have "\<dots> = Some cx_puzzle"
    unfolding cx_clear
  proof (rule reject_phase[OF cx_valid cx_sub], rule ballI)
    fix q assume "q \<in> set cx_clues"
    then obtain ch where "(q, ch) \<in> set cx_alts"
      unfolding cx_alts_clues[symmetric] by auto
    then have "alt_ok cx_full cx_puzzle (q, ch)"
      using cx_alts_ok by (auto simp: list_all_iff)
    from alt_ok_sound[OF cx_valid cx_sub this]
    show "fst q < SIZE \<and> snd q < SIZE \<and>
           (\<exists>alt. valid_full alt \<and> sub_board (grid_write cx_puzzle (fst q) (snd q) 0) alt \<and> alt \<noteq> cx_full)" .
  qed
  finally show ?thesis .
qed




lemma grid_mark_given [simp]: "grid (mark_given b r c) = grid b"
  by (simp add: mark_given_def)

lemma mark_nonzero_given_fold:
  "grid (fold (\<lambda>(row, col) b. if grid b ! row ! col \<noteq> 0 then mark_given b row col else b) ps b) = grid b \<and>
   (wf_board b \<longrightarrow> wf_board (fold (\<lambda>(row, col) b. if grid b ! row ! col \<noteq> 0 then mark_given b row col else b) ps b))"
  by (induction ps arbitrary: b) (auto simp: wf_mark_given)

lemma grid_mark_nonzero_given [simp]: "grid (mark_nonzero_given b) = grid b"
  unfolding mark_nonzero_given_def using mark_nonzero_given_fold by blast

lemma wf_mark_nonzero_given: "wf_board b \<Longrightarrow> wf_board (mark_nonzero_given b)"
  unfolding mark_nonzero_given_def using mark_nonzero_given_fold by blast

lemma given_count_grid: "grid a = grid b \<Longrightarrow> given_count a = given_count b"
  by (simp add: given_count_def)

lemma given_count_empties: "given_count b + empties b = 81"
proof -
  have "given_count b = length (filter (\<lambda>p. \<not> (case p of (r, c) \<Rightarrow> get b r c = 0)) positions)"
    unfolding given_count_def get_def by (rule arg_cong[where f = length], rule filter_cong) auto
  then show ?thesis
    unfolding empties_def using sum_length_filter_compl[of "\<lambda>(r, c). get b r c = 0" positions]
    by (simp add: length_positions)
qed

lemma randint_bounds: "a \<le> b \<Longrightarrow> a \<le> fst (randint a b t) \<and> fst (randint a b t) \<le> b"
proof -
  assume "a \<le> b"
  have "fst (randbelow (b - a + 1) t) < b - a + 1" by (rule randbelow_less) simp
  then show ?thesis using \<open>a \<le> b\<close> by (auto simp: randint_def split: prod.splits)
qed

lemma fold_box_wf_given:
  fixes zs :: "((nat \<times> nat) \<times> nat) list"
  shows "(wf_board b \<longrightarrow> wf_board (fold (\<lambda>((r, c), idx) b. grid_write b r c (f idx)) zs b)) \<and>
         given (fold (\<lambda>((r, c), idx) b. grid_write b r c (f idx)) zs b) = given b"
  by (induction zs arbitrary: b) (auto simp: wf_grid_write)

lemma wf_fill_box: "wf_board b \<Longrightarrow> wf_board (fst (fill_box b row col t))"
  using fold_box_wf_given by (simp add: fill_box_def split: prod.splits)

lemma given_fill_box: "given (fst (fill_box b row col t)) = given b"
  using fold_box_wf_given by (simp add: fill_box_def split: prod.splits)

lemma wf_fill_diagonal_boxes:
  "wf_board b \<Longrightarrow> wf_board (fst (fill_diagonal_boxes b t)) \<and>
     given (fst (fill_diagonal_boxes b t)) = given b"
proof -
  have "wf_board (fst s) \<Longrightarrow>
        wf_board (fst (fold (\<lambda>box (b, t). fill_box b (box * BOX_SIZE) (box * BOX_SIZE) t) xs s)) \<and>
        given (fst (fold (\<lambda>box (b, t). fill_box b (box * BOX_SIZE) (box * BOX_SIZE) t) xs s)) = given (fst s)"
    for xs s
  proof (induction xs arbitrary: s)
    case Nil
    then show ?case by simp
  next
    case (Cons x xs)
    obtain b t where s: "s = (b, t)" by (cases s)
    have "wf_board (fst (fill_box b (x * BOX_SIZE) (x * BOX_SIZE) t))"
      using Cons.prems s wf_fill_box by simp
    from Cons.IH[OF this] show ?case using s by (simp add: given_fill_box)
  qed
  from this[of "(b, t)" "[0..<3]"] show "wf_board b \<Longrightarrow> wf_board (fst (fill_diagonal_boxes b t)) \<and>
     given (fst (fill_diagonal_boxes b t)) = given b"
    by (simp add: fill_diagonal_boxes_def)
qed

lemma generate_complete_board_spec:
  "\<exists>seed t1 ok b0 t0. fill_diagonal_boxes new_board t = (seed, t1) \<and> wf_board seed \<and>
      generate_complete_board t = Some (b0, t0) \<and> solve_post seed ok b0 \<and> wf_board b0"
proof -
  obtain seed t1 where f: "fill_diagonal_boxes new_board t = (seed, t1)"
    by (cases "fill_diagonal_boxes new_board t")
  have wf: "wf_board seed" using wf_fill_diagonal_boxes[OF wf_new_board, of t] f by simp
  obtain ok b0 t0 where s: "solve_with_randomness seed t1 = Some (ok, b0, t0)" "solve_post seed ok b0"
    using solve_with_randomness_spec[OF wf] by blast
  have "wf_board b0" using s(2) wf by (cases ok) (auto simp: solve_post_def completion_iff)
  moreover have "generate_complete_board t = Some (b0, t0)"
    using f s(1) by (simp add: generate_complete_board_def)
  ultimately show ?thesis using f wf s(2) by blast
qed

lemma remove_cells_spec:
  assumes "wf_board b"
  shows "\<exists>b' t'. remove_cells b count t = Some (b', t') \<and> wf_board b' \<and> sub_board b' b \<and>
           (unique_sol b \<longrightarrow> unique_sol b') \<and> empties b' \<le> empties b + count"
proof -
  obtain ps t' where sh: "shuffle positions t = (ps, t')" by (cases "shuffle positions t")
  have "set ps = set positions" using set_shuffle[of positions t] sh by simp
  then have r: "\<forall>p\<in>set ps. fst p < SIZE \<and> snd p < SIZE"
    using in_positions by (metis prod.collapse)
  from remove_loop_spec[OF assms r, of 0 count "count * 3" 0]
  obtain b' where "remove_loop b count (count * 3) ps 0 0 = Some b'" "wf_board b'"
      "sub_board b' b" "unique_sol b \<longrightarrow> unique_sol b'" "empties b' + 0 \<le> empties b + count"
    by auto
  then show ?thesis using sh by (simp add: remove_cells_def)
qed

lemma remove_range_bounds:
  "fst (remove_range d) \<le> snd (remove_range d) \<and> snd (remove_range d) \<le> 58"
  by (simp add: remove_range_def REMOVE_COUNT_def EXPERT_def EASY_def MEDIUM_def HARD_def)

lemma remove_range_expert: "remove_range EXPERT = (54, 58)"
  by (simp add: remove_range_def REMOVE_COUNT_def EXPERT_def EASY_def MEDIUM_def HARD_def)

lemma generate_spec:
  "\<exists>b0 t0 n t1 b1 t'. generate_complete_board t = Some (b0, t0) \<and>
      randint (fst (remove_range d)) (snd (remove_range d)) t0 = (n, t1) \<and>
      remove_cells b0 n t1 = Some (b1, t') \<and>
      generate d t = Some (mark_nonzero_given b1, t')"
proof -
  obtain b0 t0 where g: "generate_complete_board t = Some (b0, t0)" "wf_board b0"
    using generate_complete_board_spec[of t] by blast
  obtain n t1 where n: "randint (fst (remove_range d)) (snd (remove_range d)) t0 = (n, t1)"
    by (cases "randint (fst (remove_range d)) (snd (remove_range d)) t0")
  obtain b1 t' where r: "remove_cells b0 n t1 = Some (b1, t')"
    using remove_cells_spec[OF g(2)] by blast
  obtain lo hi where rr: "remove_range d = (lo, hi)" by (cases "remove_range d")
  have "generate d t = Some (mark_nonzero_given b1, t')"
    using g(1) n r rr by (simp add: generate_def)
  then show ?thesis using g n r by blast
qed




lemma filter_length_mono:
  "(\<And>x. x \<in> set xs \<Longrightarrow> P x \<Longrightarrow> Q x) \<Longrightarrow> length (filter P xs) \<le> length (filter Q xs)"
  by (induction xs) auto

lemma sub_board_given_count: "sub_board a b \<Longrightarrow> given_count a \<le> given_count b"
  unfolding given_count_def
proof (rule filter_length_mono)
  fix x assume s: "sub_board a b" and x: "x \<in> set positions"
    and n: "case x of (r, c) \<Rightarrow> grid a ! r ! c \<noteq> 0"
  obtain r c where p: "x = (r, c)" by (cases x)
  have "r < SIZE \<and> c < SIZE" using x p in_positions by simp
  then have "get a r c = 0 \<or> get a r c = get b r c" using s unfolding sub_board_iff by blast
  then show "case x of (r, c) \<Rightarrow> grid b ! r ! c \<noteq> 0" using n p by (auto simp: get_def)
qed

text \<open>
  For every tape \<open>generate\<close> with difficulty expert returns, and the board returned has
  at most 58 nonzero cells fewer than the board of the completion phase, and never more.
\<close>

lemma generate_expert_given_count:
  "\<exists>b t' b0 t0. generate EXPERT t = Some (b, t') \<and> generate_complete_board t = Some (b0, t0) \<and>
     given_count b \<le> given_count b0 \<and> given_count b0 \<le> given_count b + 58"
proof -
  obtain b0 t0 n t1 b1 t' where g: "generate_complete_board t = Some (b0, t0)"
    "randint (fst (remove_range EXPERT)) (snd (remove_range EXPERT)) t0 = (n, t1)"
    "remove_cells b0 n t1 = Some (b1, t')"
    "generate EXPERT t = Some (mark_nonzero_given b1, t')"
    using generate_spec[of t EXPERT] by blast
  have n: "n \<le> 58" using randint_bounds[of 54 58 t0] g(2) by (simp add: remove_range_expert)
  have wf0: "wf_board b0" using generate_complete_board_spec[of t] g(1) by auto
  obtain b' t'' where r: "remove_cells b0 n t1 = Some (b', t'')" "sub_board b' b0"
    "empties b' \<le> empties b0 + n"
    using remove_cells_spec[OF wf0, of n t1] by blast
  then have b': "b' = b1" using g(3) by simp
  have "given_count b1 \<le> given_count b0" using sub_board_given_count r(2) b' by simp
  moreover have "given_count b0 \<le> given_count b1 + 58"
    using r(3) b' n given_count_empties[of b0] given_count_empties[of b1] by simp
  ultimately show ?thesis
    using g(1,4) given_count_grid[of "mark_nonzero_given b1" b1] by auto
qed



lemma regive_pair: "regive f (k, b) = (k, b\<lparr>given := f\<rparr>)"
  by (simp add: regive_def)

lemma backtrack_regive:
  "backtrack n limit (regive f p) = map_option (regive f) (backtrack n limit p)"
  and backtrack_try_regive:
  "backtrack_try n limit r c nums (regive f p) =
     map_option (regive f) (backtrack_try n limit r c nums p)"
proof (induction n limit p and n limit r c nums p rule: backtrack_backtrack_try.induct)
  case (1 limit count b)
  then show ?case by (simp add: regive_pair)
next
  case (2 n limit count b)
  then show ?case by (simp add: regive_pair split: option.splits)
next
  case (3 n limit row col count b)
  then show ?case by (simp add: regive_pair)
next
  case (4 n limit row col num numbers count b)
  show ?case
  proof (cases "is_valid_move b row col num")
    case False
    then show ?thesis using 4(3) by (simp add: regive_pair)
  next
    case True
    have w: "(count, grid_write (b\<lparr>given := f\<rparr>) row col num) = regive f (count, grid_write b row col num)"
      by (simp add: regive_pair grid_write_given_update)
    show ?thesis
    proof (cases "backtrack n limit (count, grid_write b row col num)")
      case None
      then show ?thesis using True 4(1) w by (simp add: regive_pair)
    next
      case (Some q)
      obtain k' b' where q: "q = (k', b')" by (cases q)
      have "backtrack_try n limit row col numbers (regive f (k', grid_write b' row col 0)) =
            map_option (regive f) (backtrack_try n limit row col numbers (k', grid_write b' row col 0))"
        using 4(2)[OF True] Some q by simp
      then show ?thesis
        using True Some q 4(1)[OF True] w
        by (simp add: regive_pair grid_write_given_update)
    qed
  qed
qed

lemma backtrack_given_update:
  "backtrack n limit (k, b\<lparr>given := f\<rparr>) =
     map_option (\<lambda>(k', b'). (k', b'\<lparr>given := f\<rparr>)) (backtrack n limit (k, b))"
proof -
  have "regive f = (\<lambda>(k', b'). (k', b'\<lparr>given := f\<rparr>))" by (auto simp: regive_def)
  then show ?thesis using backtrack_regive[of n limit f "(k, b)"] by (simp add: regive_def)
qed

lemma count_solutions_given_update:
  "count_solutions (b\<lparr>given := f\<rparr>) limit =
     map_option (\<lambda>(k', b'). (k', b'\<lparr>given := f\<rparr>)) (count_solutions b limit)"
  unfolding count_solutions_def by (rule backtrack_given_update)

lemma unique_sol_full:
  assumes "wf_board b" "find_empty_cell b = None"
  shows "unique_sol b"
proof -
  have "completion b b" using completion_self assms by blast
  moreover have "\<And>s. completion b s \<Longrightarrow> s = b" using completion_full_eq assms by blast
  ultimately have "sols b = {b}" unfolding sols_def by blast
  then show ?thesis by (simp add: unique_sol_def cnt_def)
qed

lemma count_solutions_unique:
  assumes "wf_board b" "unique_sol b"
  shows "count_solutions b 2 = Some (1, b)"
  using count_solutions_spec[OF assms(1), of 2] assms(2) by (simp add: unique_sol_def)

lemma generate_unique_if_completed:
  assumes "generate_complete_board t = Some (b0, t0)" "find_empty_cell b0 = None"
  shows "\<exists>b t' b'. generate d t = Some (b, t') \<and> count_solutions (copy b) 2 = Some (1, b')"
proof -
  obtain b0' t0' n t1 b1 t' where g: "generate_complete_board t = Some (b0', t0')"
    "remove_cells b0' n t1 = Some (b1, t')"
    "generate d t = Some (mark_nonzero_given b1, t')"
    using generate_spec[of t d] by blast
  have e: "b0' = b0" using g(1) assms(1) by simp
  have wf0: "wf_board b0" using generate_complete_board_spec[of t] assms(1) by auto
  have u0: "unique_sol b0" using unique_sol_full[OF wf0 assms(2)] .
  obtain b' t'' where r: "remove_cells b0 n t1 = Some (b', t'')" "wf_board b'"
    "unique_sol b0 \<longrightarrow> unique_sol b'"
    using remove_cells_spec[OF wf0, of n t1] by blast
  then have b': "b' = b1" using g(2) e by simp
  let ?b = "mark_nonzero_given b1"
  have eq: "b1\<lparr>given := given ?b\<rparr> = ?b" using grid_mark_nonzero_given[of b1] by simp
  have "count_solutions b1 2 = Some (1, b1)"
    using count_solutions_unique r u0 b' by simp
  then have "count_solutions (b1\<lparr>given := given ?b\<rparr>) 2 = Some (1, b1\<lparr>given := given ?b\<rparr>)"
    using count_solutions_given_update[where b = b1 and f = "given ?b" and limit = 2] by simp
  then have "count_solutions (copy ?b) 2 = Some (1, ?b)"
    unfolding eq by simp
  then show ?thesis using g(3) by blast
qed



text \<open>The deterministic solver returns the lexicographically least completion.\<close>

lemma lex_le_refl: "lex_le xs xs"
  by (induction xs) auto

lemma lex_le_first_diff:
  "length xs = length ys \<Longrightarrow> i < length xs \<Longrightarrow> \<forall>j<i. xs ! j = ys ! j \<Longrightarrow> xs ! i < ys ! i \<Longrightarrow>
   lex_le xs ys"
proof (induction xs ys arbitrary: i rule: list_induct2)
  case Nil
  then show ?case by simp
next
  case (Cons x xs y ys)
  show ?case
  proof (cases i)
    case 0
    then show ?thesis using Cons.prems by simp
  next
    case (Suc k)
    have "x = y" using Cons.prems(2) Suc by auto
    moreover have "lex_le xs ys"
    proof (rule Cons.IH[of k])
      show "k < length xs" using Cons.prems(1) Suc by simp
      show "\<forall>j<k. xs ! j = ys ! j" using Cons.prems(2) Suc by auto
      show "xs ! k < ys ! k" using Cons.prems(3) Suc by simp
    qed
    ultimately show ?thesis by simp
  qed
qed

lemma lex_le_antisym: "length xs = length ys \<Longrightarrow> lex_le xs ys \<Longrightarrow> lex_le ys xs \<Longrightarrow> xs = ys"
  by (induction xs ys rule: list_induct2) auto

lemma length_cells: "length (cells b) = 81"
  by (simp add: cells_def length_positions)

lemma cells_nth: "i < 81 \<Longrightarrow> cells b ! i = get b (fst (positions ! i)) (snd (positions ! i))"
  by (simp add: cells_def length_positions case_prod_beta)

lemma find_empty_first:
  assumes "find_empty_cell b = Some (r, c)"
  shows "\<exists>i<81. positions ! i = (r, c) \<and> (\<forall>j<i. cells b ! j \<noteq> 0)"
proof -
  obtain i where i: "i < length positions" "positions ! i = (r, c)"
    "\<forall>j<i. \<not> (case positions ! j of (row, col) \<Rightarrow> grid b ! row ! col = 0)"
    using assms unfolding find_empty_cell_def find_Some_iff by auto
  have "\<forall>j<i. cells b ! j \<noteq> 0"
    using i(1,3) by (auto simp: cells_nth length_positions get_def case_prod_beta)
  then show ?thesis using i by (auto simp: length_positions)
qed

lemma completion_keeps:
  assumes "completion b s" "i < 81" "cells b ! i \<noteq> 0"
  shows "cells s ! i = cells b ! i"
proof -
  obtain r c where p: "positions ! i = (r, c)" by (cases "positions ! i")
  have "(r, c) \<in> set positions" using p assms(2) length_positions nth_mem by metis
  then have "r < SIZE \<and> c < SIZE" by (simp add: in_positions)
  then show ?thesis
    using assms p unfolding completion_iff by (auto simp: cells_nth split: if_splits)
qed

lemma solve_try_least:
  assumes IH: "\<And>b b'. wf_board b \<Longrightarrow> empties b < n \<Longrightarrow> solve_fuel n b = Some (True, b') \<Longrightarrow>
                 (\<forall>s. completion b s \<longrightarrow> lex_le (cells b') (cells s))"
    and wf: "wf_board b" and r: "r < SIZE" and c: "c < SIZE" and e: "get b r c = 0"
    and n: "empties b \<le> n"
    and i: "i < 81" "positions ! i = (r, c)" "\<forall>j<i. cells b ! j \<noteq> 0"
  shows "sorted nums \<Longrightarrow> \<forall>v\<in>set nums. 1 \<le> v \<and> v \<le> 9 \<Longrightarrow>
         solve_try n r c nums b = Some (True, b') \<Longrightarrow>
         (\<forall>s. completion b s \<and> get s r c \<in> set nums \<longrightarrow> lex_le (cells b') (cells s))"
proof (induction nums)
  case Nil
  then show ?case by simp
next
  case (Cons num nums)
  have num: "1 \<le> num" "num \<le> 9" "num \<noteq> 0" using Cons.prems by auto
  have sorted: "sorted nums" "\<forall>v\<in>set nums. num \<le> v" using Cons.prems(1) by auto
  have rng: "\<forall>v\<in>set nums. 1 \<le> v \<and> v \<le> 9" using Cons.prems(2) by simp
  show ?case
  proof (cases "is_valid_move b r c num")
    case False
    have no: "\<And>s. completion b s \<Longrightarrow> get s r c \<noteq> num"
      using False completion_step[OF wf r c e] by auto
    have "solve_try n r c nums b = Some (True, b')" using False Cons.prems(3) by simp
    then have "\<forall>s. completion b s \<and> get s r c \<in> set nums \<longrightarrow> lex_le (cells b') (cells s)"
      using Cons.IH[OF sorted(1) rng] by simp
    then show ?thesis using no by auto
  next
    case True
    let ?b1 = "grid_write b r c num"
    have wf1: "wf_board ?b1" using wf by (rule wf_grid_write)
    have e1: "empties ?b1 < n" using empties_grid_write[OF wf r c e num(3)] n by simp
    obtain ok1 b1' where
      s1: "solve_fuel n ?b1 = Some (ok1, b1')" "solve_post ?b1 ok1 b1'"
      using solve_fuel_spec[OF wf1 e1] by auto
    show ?thesis
    proof (cases ok1)
      case True
      have b': "b' = b1'" using s1 True \<open>is_valid_move b r c num\<close> Cons.prems(3) by simp
      have C: "completion ?b1 b1'" using s1 True by (simp add: solve_post_def)
      then have v1: "get b1' r c = num" using completion_written wf r c num by blast
      have Cb: "completion b b1'"
        using completion_step[OF wf r c e, of b1'] C num \<open>is_valid_move b r c num\<close> v1 by simp
      have least1: "\<forall>s. completion ?b1 s \<longrightarrow> lex_le (cells b1') (cells s)"
        using IH[OF wf1 e1] s1 True by simp
      show ?thesis
      proof (intro allI impI)
        fix s
        assume h: "completion b s \<and> get s r c \<in> set (num # nums)"
        then have ge: "num \<le> get s r c" using sorted(2) by auto
        show "lex_le (cells b') (cells s)"
        proof (cases "get s r c = num")
          case True
          then have "completion ?b1 s" using h completion_step[OF wf r c e, of s] by simp
          then show ?thesis using least1 b' by simp
        next
          case False
          have lt: "cells b1' ! i < cells s ! i"
            using False ge v1 i by (simp add: cells_nth)
          have eq: "\<forall>j<i. cells b1' ! j = cells s ! j"
          proof (intro allI impI)
            fix j
            assume j: "j < i"
            then have "cells b ! j \<noteq> 0" "j < 81" using i by auto
            then show "cells b1' ! j = cells s ! j"
              using completion_keeps[OF Cb] completion_keeps[of b s] h by simp
          qed
          show ?thesis
            unfolding b'
            by (rule lex_le_first_diff[of _ _ i]) (use lt eq i in \<open>simp_all add: length_cells\<close>)
        qed
      qed
    next
      case False
      then have b1': "b1' = ?b1" and none: "\<And>s. \<not> completion ?b1 s"
        using s1 by (auto simp: solve_post_def)
      have restored: "grid_write b1' r c 0 = b"
        using b1' grid_write_restore[OF wf r c e] by simp
      have no: "\<And>s. completion b s \<Longrightarrow> get s r c \<noteq> num"
        using none completion_step[OF wf r c e] by auto
      have "solve_try n r c nums b = Some (True, b')"
        using s1 False \<open>is_valid_move b r c num\<close> restored Cons.prems(3) by simp
      then have "\<forall>s. completion b s \<and> get s r c \<in> set nums \<longrightarrow> lex_le (cells b') (cells s)"
        using Cons.IH[OF sorted(1) rng] by simp
      then show ?thesis using no by auto
    qed
  qed
qed

lemma sorted_upto_19: "sorted [1..9::int]"
  by (simp add: upto.simps)

lemma solve_fuel_least:
  "wf_board b \<Longrightarrow> empties b < n \<Longrightarrow> solve_fuel n b = Some (True, b') \<Longrightarrow>
   (\<forall>s. completion b s \<longrightarrow> lex_le (cells b') (cells s))"
proof (induction n arbitrary: b b')
  case 0
  then show ?case by simp
next
  case (Suc n)
  show ?case
  proof (cases "find_empty_cell b")
    case None
    then have "b' = b" using Suc.prems by simp
    then show ?thesis using completion_full_eq[OF _ Suc.prems(1) None] lex_le_refl by auto
  next
    case (Some p)
    obtain r c where p: "p = (r, c)" by (cases p)
    have rc: "r < SIZE" "c < SIZE" "get b r c = 0"
      using find_empty_Some Some p by auto
    obtain i where i: "i < 81" "positions ! i = (r, c)" "\<forall>j<i. cells b ! j \<noteq> 0"
      using find_empty_first Some p by blast
    have t: "solve_try n r c [1..9] b = Some (True, b')" using Suc.prems(3) Some p by simp
    have n: "empties b \<le> n" using Suc.prems(2) by simp
    have "\<forall>s. completion b s \<and> get s r c \<in> set [1..9] \<longrightarrow> lex_le (cells b') (cells s)"
      by (rule solve_try_least[OF Suc.IH \<open>wf_board b\<close> rc n i sorted_upto_19 _ t]) auto
    moreover have "\<And>s. completion b s \<Longrightarrow> get s r c \<in> set [1..9]"
      using completion_step[OF \<open>wf_board b\<close> rc] unfolding set_upto_19 by blast
    ultimately show ?thesis by blast
  qed
qed

lemma solve_least:
  assumes "wf_board b"
  shows "\<exists>ok b'. solve b = Some (ok, b') \<and>
           (if ok then completion b b' \<and> (\<forall>s. completion b s \<longrightarrow> lex_le (cells b') (cells s))
            else b' = b \<and> (\<forall>s. \<not> completion b s))"
proof -
  obtain ok b' where s: "solve b = Some (ok, b')" "solve_post b ok b'"
    using solve_spec[OF assms] by blast
  have "if ok then completion b b' \<and> (\<forall>s. completion b s \<longrightarrow> lex_le (cells b') (cells s))
            else b' = b \<and> (\<forall>s. \<not> completion b s)"
  proof (cases ok)
    case True
    have "\<forall>s. completion b s \<longrightarrow> lex_le (cells b') (cells s)"
      using solve_fuel_least[OF assms empties_le, of b'] s(1) True by (simp add: solve_def)
    then show ?thesis using s True by (simp add: solve_post_def)
  next
    case False
    then show ?thesis using s by (simp add: solve_post_def)
  qed
  then show ?thesis using s(1) by blast
qed

lemma wf_rect_board: "wf_board rect_board"
  by code_simp

lemma solve_rect_board: "solve rect_board = Some (True, rect_low)"
  by code_simp

lemma completion_rect_high: "completion rect_board rect_high"
  by code_simp

lemma rect_high_not_least: "\<not> lex_le (cells rect_high) (cells rect_low)"
  by code_simp

section \<open>The claims\<close>

text \<open>
  Claim C2, as stated, fails: on a board holding 1 at (0,0) and at (0,1), checking cell
  (0,0) against its own value 1 returns \<open>False\<close>, because another cell of the row holds 1.
\<close>

theorem own_value_counterexample:
  "wf_board two_ones \<and> get two_ones 0 0 = 1 \<and> \<not> is_valid_move two_ones 0 0 (get two_ones 0 0)"
proof -
  have s: "(0::nat) < SIZE" "(1::nat) < SIZE" by (simp_all add: SIZE_def)
  have g0: "get two_ones 0 0 = 1" and g1: "get two_ones 0 1 = 1"
    unfolding two_ones_def
    by (simp_all add: get_grid_write wf_grid_write wf_new_board SIZE_def)
  have "same_unit 0 0 0 1" by (simp add: same_unit_def)
  then have "\<not> is_valid_move two_ones 0 0 1"
    unfolding valid_iff[OF s(1) s(1)] using g1 s by (intro notI) (metis Pair_inject zero_neq_one)
  then show ?thesis using g0 wf_two_ones by simp
qed

text \<open>
  Claim C2, amended.  \<open>is_valid_move\<close> on a cell's own value returns \<open>True\<close> exactly when no other
  cell of its row, column or box holds that value; the cell itself is never compared, so
  the answer for a cell does not depend on what that cell holds.
\<close>

theorem own_value_valid_iff:
  assumes "wf_board b" "r < SIZE" "c < SIZE"
  shows "is_valid_move b r c (get b r c) =
           (\<forall>r' c'. r' < SIZE \<and> c' < SIZE \<and> (r', c') \<noteq> (r, c) \<and> same_unit r c r' c'
                    \<longrightarrow> get b r' c' \<noteq> get b r c) \<and>
         is_valid_move (grid_write b r c x) r c v = is_valid_move b r c v"
  using valid_iff[OF assms(2,3)] is_valid_move_self_indep[OF assms] by simp

theorem own_value_valid_iff_witness:
  "wf_board two_ones \<and> (0::nat) < SIZE \<and>
   is_valid_move two_ones 0 0 (get two_ones 0 0) =
     (\<forall>r' c'. r' < SIZE \<and> c' < SIZE \<and> (r', c') \<noteq> (0, 0) \<and> same_unit 0 0 r' c'
              \<longrightarrow> get two_ones r' c' \<noteq> get two_ones 0 0) \<and>
   is_valid_move (grid_write two_ones 0 0 3) 0 0 4 = is_valid_move two_ones 0 0 4"
proof -
  have s: "(0::nat) < SIZE" by (simp add: SIZE_def)
  show ?thesis
    using own_value_valid_iff[OF wf_two_ones s s, of 3 4] s wf_two_ones by simp
qed

text \<open>
  Claim C3.  For a board of nine rows of nine cells stored at \<open>a\<close>: \<open>count_solutions\<close>
  returns and leaves the store as it was (the cells it writes during the search are reset),
  and \<open>get_hint\<close> returns and leaves every object that existed before the call as it was
  (it works on a new copy).
\<close>

theorem count_solutions_get_hint_frame:
  assumes "a < length h" "wf_board (h ! a)"
  shows "(\<exists>k. count_solutions_obj h a limit = Some (k, h)) \<and>
         (\<exists>hint h'. get_hint h a = Some (hint, h') \<and> take (length h) h' = h)"
proof
  show "\<exists>k. count_solutions_obj h a limit = Some (k, h)"
    using count_solutions_spec[OF assms(2), of limit]
    by (simp add: count_solutions_obj_def)
next
  let ?h1 = "h @ [copy (h ! a)]"
  have "wf_board (?h1 ! length h)" using assms(2) by simp
  then obtain ok b' where s: "solve (?h1 ! length h) = Some (ok, b')"
    using solve_spec by blast
  then have "solve_obj ?h1 (length h) = Some (ok, h @ [b'])"
    by (simp add: solve_obj_def)
  then have "\<exists>hint. get_hint h a = Some (hint, h @ [b'])"
    by (cases ok) (simp_all add: get_hint_def copy_obj_def)
  then show "\<exists>hint h'. get_hint h a = Some (hint, h') \<and> take (length h) h' = h"
    by auto
qed

theorem count_solutions_get_hint_frame_witness:
  "(0::nat) < length one_board_heap \<and> wf_board (one_board_heap ! 0) \<and>
   (\<exists>k. count_solutions_obj one_board_heap 0 2 = Some (k, one_board_heap)) \<and>
   (\<exists>hint h'. get_hint one_board_heap 0 = Some (hint, h') \<and>
      take (length one_board_heap) h' = one_board_heap)"
proof -
  have l: "(0::nat) < length one_board_heap" and w: "wf_board (one_board_heap ! 0)"
    by (simp_all add: one_board_heap_def wf_two_ones)
  show ?thesis
    using count_solutions_get_hint_frame[OF l w, of 2] l w by simp
qed

text \<open>
  Claim C6, as stated, fails: \<open>from_dict\<close> validates nothing.  A record with one row
  holding the value 10 yields a board with that grid.
\<close>

theorem from_dict_counterexample:
  "from_dict bad_record = Inr \<lparr>grid = [[10]], given = [[False]]\<rparr>"
  by (simp add: from_dict_def bad_record_def as_ints_def as_flags_def)

text \<open>
  Claim C6, amended.  \<open>from_dict\<close> returns a
  board holding exactly the two arrays of the record, whatever their shape and values;
  it fails (with \<open>KeyError\<close>) exactly when a key is missing; and a board saved by
  \<open>to_dict\<close> is read back unchanged.
\<close>

theorem from_dict_no_validation:
  "(data ''grid'' = Some (IntRows g) \<and> data ''given'' = Some (BoolRows f)
      \<longrightarrow> from_dict data = Inr \<lparr>grid = g, given = f\<rparr>) \<and>
   ((\<exists>e. from_dict data = Inl e) = (data ''grid'' = None \<or> data ''given'' = None)) \<and>
   from_dict (to_dict b) = Inr b"
  by (auto simp: from_dict_def to_dict_def as_ints_def as_flags_def split: option.splits)

theorem from_dict_no_validation_witness:
  "bad_record ''grid'' = Some (IntRows [[10]]) \<and> bad_record ''given'' = Some (BoolRows [[False]]) \<and>
   from_dict bad_record = Inr \<lparr>grid = [[10]], given = [[False]]\<rparr>"
  using from_dict_no_validation[of bad_record "[[10]]" "[[False]]"]
  by (simp add: bad_record_def)

text \<open>
  Claim C7.  On a board of nine rows of nine cells and for a cell in range: if the cell is
  marked given, \<open>set\<close> returns \<open>False\<close> and leaves the whole board (values and flags) as it
  was; otherwise it returns \<open>True\<close> and \<open>get\<close> on the board it leaves returns the value
  just written.
\<close>

theorem set_then_get:
  assumes "wf_board b" "r < SIZE" "c < SIZE"
  shows "if is_given b r c
         then set_cell b r c v = (False, b)
         else fst (set_cell b r c v) \<and> get (snd (set_cell b r c v)) r c = v"
  using assms by (simp add: set_cell_def is_given_def get_grid_write)

theorem set_then_get_witness:
  "wf_board given_corner \<and> (0::nat) < SIZE \<and> (1::nat) < SIZE \<and>
   is_given given_corner 0 0 \<and> set_cell given_corner 0 0 5 = (False, given_corner) \<and>
   \<not> is_given given_corner 0 1 \<and> fst (set_cell given_corner 0 1 5) \<and>
   get (snd (set_cell given_corner 0 1 5)) 0 1 = 5"
proof -
  have g0: "is_given given_corner 0 0" and g1: "\<not> is_given given_corner 0 1"
    by (simp_all add: is_given_def given_corner_def mark_given_def new_board_def SIZE_def)
  have s: "(0::nat) < SIZE" "(1::nat) < SIZE" by (simp_all add: SIZE_def)
  show ?thesis
    using set_then_get[OF wf_given_corner s(1) s(1), of 5]
      set_then_get[OF wf_given_corner s(1) s(2), of 5] g0 g1 s wf_given_corner
    by simp
qed

text \<open>
  Claim C8.  On the board whose first row holds nine 1s and whose other cells are empty,
  \<open>solve\<close> returns \<open>False\<close>; it does so by its return value (no \<open>RecursionError\<close>, which
  would be \<open>None\<close>), and leaves the board as it was.
\<close>

theorem solve_nine_ones: "solve nine_ones = Some (False, nine_ones)"
proof -
  obtain ok b' where s: "solve nine_ones = Some (ok, b')" "solve_post nine_ones ok b'"
    using solve_spec[OF wf_nine_ones] by blast
  have "\<not> ok" using s(2) nine_ones_no_completion unfolding solve_post_def by (cases ok) auto
  then show ?thesis using s unfolding solve_post_def by simp
qed

text \<open>
  Claim C9.  \<open>solve\<close> takes no random input: at the first empty cell (in row-major
  order) it tries the candidates of the fixed list \<open>[1..9]\<close> in ascending order.  So on
  two boards with equal grids (their flags may differ) both runs return, with the same
  boolean, and leave equal grids; when the boolean is \<open>True\<close> the board left is the
  completion whose row-by-row reading is lexicographically least among all completions
  (the smallest possible value in the first empty cell, then the smallest possible value
  in the next one, and so on), and when it is \<open>False\<close> there is no completion and both
  boards are left as they were.
\<close>

theorem solve_deterministic:
  assumes "wf_board b1" "wf_board b2" "grid b1 = grid b2"
  shows "\<exists>ok b1' b2'. solve b1 = Some (ok, b1') \<and> solve b2 = Some (ok, b2') \<and>
           grid b1' = grid b2' \<and>
           (if ok then completion b1 b1' \<and>
                       (\<forall>s. completion b1 s \<longrightarrow> lex_le (cells b1') (cells s))
            else b1' = b1 \<and> b2' = b2 \<and> (\<forall>s. \<not> completion b1 s))"
proof -
  obtain ok b1' where s1: "solve b1 = Some (ok, b1')"
    and p1: "if ok then completion b1 b1' \<and>
                       (\<forall>s. completion b1 s \<longrightarrow> lex_le (cells b1') (cells s))
             else b1' = b1 \<and> (\<forall>s. \<not> completion b1 s)"
    using solve_least[OF assms(1)] by blast
  have eq: "b2 = b1\<lparr>given := given b2\<rparr>" using assms(3) by simp
  have "solve b2 = map_option (\<lambda>(ok, b'). (ok, b'\<lparr>given := given b2\<rparr>)) (solve b1)"
    unfolding solve_def
    using solve_fuel_given_update[where n = recursion_limit and b = b1 and f = "given b2"] eq
    by simp
  then have s2: "solve b2 = Some (ok, b1'\<lparr>given := given b2\<rparr>)" using s1 by simp
  have "if ok then completion b1 b1' \<and>
                       (\<forall>s. completion b1 s \<longrightarrow> lex_le (cells b1') (cells s))
            else b1' = b1 \<and> b1'\<lparr>given := given b2\<rparr> = b2 \<and> (\<forall>s. \<not> completion b1 s)"
    using p1 eq by (cases ok) auto
  then show ?thesis using s1 s2 by (intro exI[of _ ok] exI[of _ b1'] exI[of _ "b1'\<lparr>given := given b2\<rparr>"]) simp
qed

theorem solve_deterministic_witness:
  "wf_board rect_board \<and> wf_board rect_flagged \<and> grid rect_board = grid rect_flagged \<and>
   rect_board \<noteq> rect_flagged \<and>
   solve rect_board = Some (True, rect_low) \<and>
   (\<exists>b2'. solve rect_flagged = Some (True, b2') \<and> grid b2' = grid rect_low) \<and>
   completion rect_board rect_high \<and> rect_high \<noteq> rect_low \<and>
   lex_le (cells rect_low) (cells rect_high)"
proof -
  have w: "wf_board rect_flagged"
    unfolding rect_flagged_def by (intro wf_mark_given wf_rect_board)
  have g: "grid rect_board = grid rect_flagged"
    by (simp add: rect_flagged_def mark_given_def)
  have ne: "rect_board \<noteq> rect_flagged" by code_simp
  have ne2: "rect_high \<noteq> rect_low" by code_simp
  obtain ok b1' b2' where r: "solve rect_board = Some (ok, b1')" "solve rect_flagged = Some (ok, b2')"
    "grid b1' = grid b2'"
    "if ok then completion rect_board b1' \<and>
                       (\<forall>s. completion rect_board s \<longrightarrow> lex_le (cells b1') (cells s))
            else b1' = rect_board \<and> b2' = rect_flagged \<and> (\<forall>s. \<not> completion rect_board s)"
    using solve_deterministic[OF wf_rect_board w g] by blast
  have ok: "ok" "b1' = rect_low" using r(1) solve_rect_board by simp_all
  then have "lex_le (cells rect_low) (cells rect_high)"
    using r(4) completion_rect_high by simp
  then show ?thesis
    using r ok w g ne ne2 wf_rect_board solve_rect_board completion_rect_high by auto
qed


text \<open>
  Claim C10.  \<open>set\<close> does not validate the value: on a cell that is in range and not
  given, it returns \<open>True\<close> and stores \<open>v\<close> for every integer \<open>v\<close>, also outside 0..9, for
  example \<open>-7\<close>.
\<close>

theorem set_no_validation:
  assumes "wf_board b" "r < SIZE" "c < SIZE" "\<not> is_given b r c"
  shows "set_cell b r c v = (True, grid_write b r c v) \<and> get (grid_write b r c v) r c = v"
  using assms by (simp add: set_cell_def is_given_def get_grid_write)

theorem set_no_validation_witness:
  "wf_board new_board \<and> (0::nat) < SIZE \<and> \<not> is_given new_board 0 0 \<and>
   set_cell new_board 0 0 (- 7) = (True, grid_write new_board 0 0 (- 7)) \<and>
   get (grid_write new_board 0 0 (- 7)) 0 0 = - 7"
proof -
  have g: "\<not> is_given new_board 0 0"
    by (simp add: is_given_def new_board_def SIZE_def)
  have s: "(0::nat) < SIZE" by (simp add: SIZE_def)
  show ?thesis
    using set_no_validation[OF wf_new_board s s g, of "- 7"] g s wf_new_board by simp
qed


text \<open>
  Claim C4.  The table \<open>REMOVE_COUNT\<close> documents 54 to 58 removed cells for expert, and
  \<open>test_generate_expert_puzzle\<close> asserts 23 to 27 nonzero cells.  The removal loop does
  not guarantee it: on the tape \<open>cx_tape\<close>, every draw of which is below its bound, the
  completion phase builds the full valid grid \<open>cx_full\<close> and \<open>randint\<close> draws the target
  54; the removal phase removes 53 cells, each removal leaving one solution, and then
  tries the remaining 28 cells, each of which is needed for uniqueness and is restored;
  the list of positions is then exhausted and the loop ends at \<open>if not positions: break\<close>
  with 53 < 54 cells removed.  The board returned has 28 nonzero cells, one more than the
  upper bound 27.
\<close>

theorem generate_expert_28_givens:
  "generate EXPERT cx_tape = Some (cx_board, []) \<and> given_count cx_board = 28 \<and>
   27 < given_count cx_board"
proof -
  have r: "remove_range EXPERT = (54, 58)"
    by (simp add: remove_range_def REMOVE_COUNT_def EXPERT_def EASY_def MEDIUM_def HARD_def)
  have "remove_cells cx_full 54 (drop 457 cx_tape) = Some (cx_puzzle, [])"
    using cx_remove_loop by (simp add: remove_cells_def cx_shuffle)
  then have "generate EXPERT cx_tape = Some (cx_board, [])"
    by (simp add: generate_def cx_complete r cx_randint cx_mark)
  then show ?thesis using cx_given_count by simp
qed

end
